theory Spec2Isabelle
  imports
    Main
    "HOL-Library.Sublist"
    "HOL-Library.Word"
    "HOL-Library.Char_ord"
    "HOL-Library.List_Lexorder"
    "HOL-Library.Multiset"
begin

section \<open>listcontents.py: values, strings and paths\<close>

text \<open>
  A Python call either returns a value or raises an exception; \<open>Raises\<close> carries the
  text of \<open>str(e)\<close>.
\<close>

datatype 'a outcome = Returns 'a | Raises string

text \<open>
  \<open>Optional[List[str]]\<close> arguments are tested by truthiness in the source
  (\<open>if include_patterns:\<close>, \<open>if not exclude_patterns:\<close>): \<open>None\<close> and the empty list are
  both false.
\<close>

fun truthy :: "'a list option \<Rightarrow> bool" where
  "truthy None = False"
| "truthy (Some xs) = (xs \<noteq> [])"

fun items :: "'a list option \<Rightarrow> 'a list" where
  "items None = []"
| "items (Some xs) = xs"

subsection \<open>String methods\<close>

abbreviation sep :: char where
  "sep \<equiv> CHR ''/''"

definition startswith :: "string \<Rightarrow> string \<Rightarrow> bool" where
  "startswith s p = prefix p s"

definition endswith :: "string \<Rightarrow> string \<Rightarrow> bool" where
  "endswith s p = suffix p s"

text \<open>Python's \<open>sub in s\<close> on strings: \<open>sub\<close> occurs as a contiguous run.\<close>

definition contains :: "string \<Rightarrow> string \<Rightarrow> bool" where
  "contains s sub = sublist sub s"

definition rstrip_sep :: "string \<Rightarrow> string" where
  "rstrip_sep s = rev (dropWhile (\<lambda>c. c = sep) (rev s))"

definition count_sep :: "string \<Rightarrow> nat" where
  "count_sep s = length (filter (\<lambda>c. c = sep) s)"

text \<open>\<open>s.split("/")\<close>: never empty, \<open>"".split("/") = [""]\<close>.\<close>

fun split_sep :: "string \<Rightarrow> string list" where
  "split_sep [] = [[]]"
| "split_sep (c # cs) =
     (if c = sep then [] # split_sep cs
      else (case split_sep cs of
              [] \<Rightarrow> [[c]]
            | w # ws \<Rightarrow> (c # w) # ws))"

text \<open>\<open>"/".join(parts)\<close>.\<close>

fun sep_join :: "string list \<Rightarrow> string" where
  "sep_join [] = []"
| "sep_join [w] = w"
| "sep_join (w # ws) = w @ sep # sep_join ws"

text \<open>
  \<open>str.lower()\<close>. A character stands for the code point of its number, so the strings
  are those of code points below 256. There \<open>str.lower()\<close> adds 32 to the letters \<open>A\<close>
  to \<open>Z\<close> and to the code points 192 to 222 other than 215 (the multiplication sign), and
  leaves every other code point as it is.
\<close>

definition lower_char :: "char \<Rightarrow> char" where
  "lower_char c =
     (let n = (of_char c :: nat)
      in if (65 \<le> n \<and> n \<le> 90) \<or> (192 \<le> n \<and> n \<le> 222 \<and> n \<noteq> 215)
         then char_of (n + 32) else c)"

definition lower :: "string \<Rightarrow> string" where
  "lower s = map lower_char s"

subsection \<open>os.path on POSIX\<close>

text \<open>
  \<open>os.sep\<close> is \<open>/\<close>, so \<open>path.replace(os.sep, "/")\<close> returns its argument; the source's
  \<open>norm_path\<close>, \<open>norm_pattern\<close> are the path and the pattern themselves.
\<close>

definition isabs :: "string \<Rightarrow> bool" where
  "isabs p = startswith p ''/''"

definition join :: "string \<Rightarrow> string \<Rightarrow> string" where
  "join a b =
     (if startswith b ''/'' then b
      else if a = [] \<or> endswith a ''/'' then a @ b
      else a @ ''/'' @ b)"

definition basename :: "string \<Rightarrow> string" where
  "basename p = rev (takeWhile (\<lambda>c. c \<noteq> sep) (rev p))"

definition dirname :: "string \<Rightarrow> string" where
  "dirname p =
     (let head = rev (dropWhile (\<lambda>c. c \<noteq> sep) (rev p))
      in if head \<noteq> [] \<and> \<not> list_all (\<lambda>c. c = sep) head then rstrip_sep head else head)"

text \<open>
  \<open>os.path.splitext(p)[1]\<close>: the text from the last dot of the last component, provided
  some character other than a dot comes before that dot in the component.
\<close>

definition splitext_ext :: "string \<Rightarrow> string" where
  "splitext_ext p =
     (let name = basename p;
          upto_dot = rev (dropWhile (\<lambda>c. c \<noteq> CHR ''.'') (rev name));
          after_dot = rev (takeWhile (\<lambda>c. c \<noteq> CHR ''.'') (rev name))
      in if upto_dot \<noteq> [] \<and> \<not> list_all (\<lambda>c. c = CHR ''.'') (butlast upto_dot)
         then CHR ''.'' # after_dot else [])"

text \<open>The component loop of \<open>normpath\<close>; \<open>acc\<close> is \<open>new_comps\<close>.\<close>

fun norm_comps :: "bool \<Rightarrow> string list \<Rightarrow> string list \<Rightarrow> string list" where
  "norm_comps initial_slashes acc [] = acc"
| "norm_comps initial_slashes acc (part # parts) =
     (if part = [] \<or> part = ''.'' then norm_comps initial_slashes acc parts
      else if part \<noteq> ''..'' \<or> (\<not> initial_slashes \<and> acc = [])
                \<or> (acc \<noteq> [] \<and> last acc = ''..'')
      then norm_comps initial_slashes (acc @ [part]) parts
      else if acc \<noteq> [] then norm_comps initial_slashes (butlast acc) parts
      else norm_comps initial_slashes acc parts)"

definition normpath :: "string \<Rightarrow> string" where
  "normpath path =
     (if path = [] then ''.''
      else
        let initial_slashes = startswith path ''/'';
            lead = (if \<not> initial_slashes then []
                    else if startswith path ''//'' \<and> \<not> startswith path ''///'' then ''//''
                    else ''/'');
            res = lead @ sep_join (norm_comps initial_slashes [] (split_sep path))
        in if res = [] then ''.'' else res)"

text \<open>\<open>os.path.abspath\<close>; \<open>cwd\<close> is \<open>os.getcwd()\<close>.\<close>

definition abspath :: "string \<Rightarrow> string \<Rightarrow> string" where
  "abspath cwd path = normpath (if isabs path then path else join cwd path)"

text \<open>
  \<open>os.path.relpath(path, start)\<close>: raises \<open>ValueError\<close> on an empty path, the only failure
  on POSIX.
\<close>

definition relpath :: "string \<Rightarrow> string \<Rightarrow> string \<Rightarrow> string outcome" where
  "relpath cwd path start =
     (if path = [] then Raises ''no path specified''
      else
        let start_list = filter (\<lambda>x. x \<noteq> []) (split_sep (abspath cwd start));
            path_list = filter (\<lambda>x. x \<noteq> []) (split_sep (abspath cwd path));
            i = length (longest_common_prefix start_list path_list);
            rel_list = replicate (length start_list - i) ''..'' @ drop i path_list
        in (case rel_list of
              [] \<Rightarrow> Returns ''.''
            | r # rs \<Rightarrow> Returns (foldl join r rs)))"

text \<open>
  \<open>os.path.commonpath([p, q])\<close>: \<open>ValueError\<close> when one path is absolute and the other is
  not; otherwise the longest common run of leading components, empty and \<open>.\<close> components
  dropped.
\<close>

definition commonpath :: "string \<Rightarrow> string \<Rightarrow> string outcome" where
  "commonpath p q =
     (if isabs p \<noteq> isabs q then Raises ''Can't mix absolute and relative paths''
      else
        let clean = (\<lambda>s. filter (\<lambda>c. c \<noteq> [] \<and> c \<noteq> ''.'') (split_sep s));
            common = longest_common_prefix (clean p) (clean q)
        in Returns ((if isabs p then ''/'' else []) @ sep_join common))"

section \<open>External collaborators\<close>

text \<open>
  What the program takes from outside its own source: the working directory, the
  shell-style matcher \<open>fnmatch.fnmatch(name, pattern)\<close>, \<open>os.path.exists\<close>, whether
  \<open>pdftotext\<close> is on the search path, and the result of running it on a file (the text of
  \<open>result.stdout\<close> or one of the bracketed strings of \<open>extract_pdf_text\<close>, which catches
  every exception itself). \<open>path_isdir\<close> is \<open>os.path.isdir\<close>: the program never calls
  it; it says which of the paths are directories, where a property has to tell a
  directory from another kind of entry.
\<close>

record env =
  cwd :: string
  fnmatch :: "string \<Rightarrow> string \<Rightarrow> bool"
  path_exists :: "string \<Rightarrow> bool"
  path_isdir :: "string \<Rightarrow> bool"
  pdftotext_available :: bool
  extract_pdf_text :: "string \<Rightarrow> string"

text \<open>
  A compiled \<open>.gitignore\<close> is a callable of \<open>gitignore_parser\<close> from an absolute path to a
  truth value; like any callable it may raise. \<open>create_gitignore_matchers\<close> pairs it with
  the directory of its file.
\<close>

type_synonym matcher = "string \<Rightarrow> bool outcome"

type_synonym gitignore_matchers = "(string \<times> matcher) list"

section \<open>Path filter\<close>

definition excluded_by :: "env \<Rightarrow> string \<Rightarrow> string \<Rightarrow> bool" where
  "excluded_by e norm_path norm_pattern =
     (if endswith norm_pattern ''/'' then
        (let pattern_name = rstrip_sep norm_pattern
         in startswith norm_path norm_pattern
            \<or> contains norm_path (''/'' @ pattern_name @ ''/'')
            \<or> endswith norm_path (''/'' @ pattern_name))
      else
        (let filename = basename norm_path
         in norm_path = norm_pattern
            \<or> contains norm_path (''/'' @ norm_pattern)
            \<or> filename = norm_pattern
            \<or> fnmatch e filename norm_pattern
            \<or> fnmatch e norm_path norm_pattern))"

definition is_excluded :: "env \<Rightarrow> string \<Rightarrow> string list option \<Rightarrow> bool" where
  "is_excluded e path exclude_patterns =
     (if \<not> truthy exclude_patterns then False
      else list_ex (excluded_by e path) (items exclude_patterns))"

definition included_by :: "env \<Rightarrow> string \<Rightarrow> string \<Rightarrow> bool" where
  "included_by e rel_path norm_pattern =
     (if endswith norm_pattern ''/'' then startswith rel_path norm_pattern
      else
        fnmatch e rel_path norm_pattern
        \<or> fnmatch e (basename rel_path) norm_pattern
        \<or> rel_path = norm_pattern
        \<or> startswith rel_path (norm_pattern @ ''/''))"

definition is_included :: "env \<Rightarrow> string \<Rightarrow> string list option \<Rightarrow> string \<Rightarrow> bool" where
  "is_included e path include_patterns base_dir =
     (if \<not> truthy include_patterns then False
      else
        let rel_path = (case relpath (cwd e) path base_dir of
                          Returns r \<Rightarrow> r
                        | Raises _ \<Rightarrow> path)
        in list_ex (included_by e rel_path) (items include_patterns))"

text \<open>
  The loop over \<open>gitignore_matchers\<close> shared by \<open>should_process_file\<close> and \<open>safe_walk\<close>:
  a matcher is asked only when \<open>commonpath\<close> of the path and its directory is that
  directory; the first matcher that flags the path ends the loop; an exception of
  \<open>commonpath\<close> or of a matcher leaves the loop at once.
\<close>

fun ignored_by :: "env \<Rightarrow> gitignore_matchers \<Rightarrow> string \<Rightarrow> bool outcome" where
  "ignored_by e [] abs_path = Returns False"
| "ignored_by e ((matcher_base_dir, matcher_fn) # ms) abs_path =
     (let abs_matcher_base_dir = abspath (cwd e) matcher_base_dir
      in case commonpath abs_path abs_matcher_base_dir of
           Raises x \<Rightarrow> Raises x
         | Returns c \<Rightarrow>
             if c = abs_matcher_base_dir then
               (case matcher_fn abs_path of
                  Raises x \<Rightarrow> Raises x
                | Returns True \<Rightarrow> Returns True
                | Returns False \<Rightarrow> ignored_by e ms abs_path)
             else ignored_by e ms abs_path)"

text \<open>The body of the \<open>try\<close> of \<open>should_process_file\<close>.\<close>

definition should_process_file_try ::
  "env \<Rightarrow> string \<Rightarrow> string \<Rightarrow> string list option \<Rightarrow> string list option \<Rightarrow>
   string list option \<Rightarrow> gitignore_matchers \<Rightarrow> bool \<Rightarrow> bool \<Rightarrow> bool outcome" where
  "should_process_file_try e file_path base_dir extensions exclude_patterns include_patterns
       gitignore_matchers allow_ignored parse_pdf =
     (if (if truthy include_patterns
          then \<not> is_included e file_path include_patterns base_dir
          else is_excluded e file_path exclude_patterns)
      then Returns False
      else
        case (if \<not> allow_ignored \<and> gitignore_matchers \<noteq> []
              then ignored_by e gitignore_matchers (abspath (cwd e) file_path)
              else Returns False) of
          Raises x \<Rightarrow> Raises x
        | Returns True \<Rightarrow> Returns False
        | Returns False \<Rightarrow>
            (let file_ext = lower (splitext_ext file_path)
             in if parse_pdf \<and> file_ext = ''.pdf'' then Returns True
                else if \<not> truthy extensions then Returns True
                else Returns (file_ext \<in> set (items extensions))))"

text \<open>
  \<open>should_process_file\<close> with its \<open>except Exception\<close>: the decision and the warnings it
  logs. The parameter \<open>git_root\<close> of the source is never read.
\<close>

definition should_process_file ::
  "env \<Rightarrow> string \<Rightarrow> string \<Rightarrow> string list option \<Rightarrow> string list option \<Rightarrow>
   string list option \<Rightarrow> gitignore_matchers \<Rightarrow> bool \<Rightarrow> bool \<Rightarrow> (bool \<times> string list) outcome" where
  "should_process_file e file_path base_dir extensions exclude_patterns include_patterns
       gitignore_matchers allow_ignored parse_pdf =
     (case should_process_file_try e file_path base_dir extensions exclude_patterns
             include_patterns gitignore_matchers allow_ignored parse_pdf of
        Returns b \<Rightarrow> Returns (b, [])
      | Raises x \<Rightarrow>
          Returns (False,
            [''Error checking file processing criteria ('' @ file_path @ ''): '' @ x]))"

section \<open>Root locator\<close>

text \<open>
  The \<open>while True\<close> loop of \<open>find_git_root\<close> from \<open>current_path\<close> on. It ends because
  \<open>os.path.dirname\<close> returns a prefix of its argument.
\<close>

function find_git_root_from :: "env \<Rightarrow> string \<Rightarrow> string option" where
  "find_git_root_from e current_path =
     (if path_exists e (join current_path ''.git'') then Some current_path
      else
        let parent_path = dirname current_path
        in if parent_path = current_path then None
           else find_git_root_from e parent_path)"
  by pat_completeness auto
termination
proof (relation "measure (\<lambda>(e, p). length p)")
  show "wf (measure (\<lambda>(e :: env, p :: string). length p))"
    by simp
next
  fix e :: env and current_path x :: string
  assume x: "x = dirname current_path" and neq: "x \<noteq> current_path"
  have cut: "prefix (rev (dropWhile P (rev p))) p" for P and p :: string
  proof -
    have "rev p = takeWhile P (rev p) @ dropWhile P (rev p)"
      by simp
    then have "p = rev (dropWhile P (rev p)) @ rev (takeWhile P (rev p))"
      by (metis rev_append rev_rev_ident)
    then show ?thesis
      by (metis prefixI)
  qed
  let ?h = "rev (dropWhile (\<lambda>c. c \<noteq> sep) (rev current_path))"
  have h: "prefix ?h current_path"
    by (rule cut)
  have "prefix (rstrip_sep ?h) ?h"
    unfolding rstrip_sep_def by (rule cut)
  with h have "prefix (rstrip_sep ?h) current_path"
    by (rule prefix_order.order_trans[rotated])
  with h have "prefix x current_path"
    unfolding x dirname_def Let_def by presburger
  with neq have "length x < length current_path"
    by (metis le_neq_implies_less prefix_length_le prefix_order.eq_iff prefix_length_prefix)
  then show "((e, x), (e, current_path)) \<in> measure (\<lambda>(e, p). length p)"
    by simp
qed

declare find_git_root_from.simps [simp del]

definition find_git_root :: "env \<Rightarrow> string \<Rightarrow> string option" where
  "find_git_root e start_path = find_git_root_from e (abspath (cwd e) start_path)"

section \<open>Content emitter\<close>

text \<open>
  What the program can observe of one file: \<open>os.path.exists\<close>, \<open>os.access(_, os.R_OK)\<close>,
  the bytes that \<open>open(_, "rb")\<close> and \<open>read\<close> give or the exception they raise, and the
  result of reading the file as UTF-8 text and printing it.
\<close>

datatype read_error =
    UnicodeDecodeError
  | PermissionError
  | OSError string
  | OtherError string

record filedata =
  f_exists :: bool
  f_readable :: bool
  f_bytes :: "8 word list outcome"
  f_text :: "read_error + string"

text \<open>\<open>print(s)\<close> writes \<open>s\<close> and a newline to standard output.\<close>

definition println :: "string \<Rightarrow> string" where
  "println s = s @ [CHR 0x0A]"

definition is_pdf_file :: "string \<Rightarrow> bool" where
  "is_pdf_file file_path = endswith (lower file_path) ''.pdf''"

text \<open>\<open>is_binary_file\<close>: the answer and the warnings logged.\<close>

definition is_binary_file :: "filedata \<Rightarrow> string \<Rightarrow> bool \<times> string list" where
  "is_binary_file fd file_path =
     (case f_bytes fd of
        Returns content \<Rightarrow> ((0 :: 8 word) \<in> set (take 1024 content), [])
      | Raises x \<Rightarrow>
          (True, [''Error checking if file is binary ('' @ file_path @ ''): '' @ x]))"

text \<open>\<open>process_file\<close>: the text written to standard output and the warnings logged.\<close>

definition process_file ::
  "env \<Rightarrow> filedata \<Rightarrow> string \<Rightarrow> string \<Rightarrow> bool \<Rightarrow> string \<times> string list" where
  "process_file e fd file_path base_dir parse_pdf =
     (if \<not> f_exists fd then
        (println (''// '' @ file_path) @ println ''<File not found>'' @ println [], [])
      else if \<not> f_readable fd then
        (println (''// '' @ file_path) @ println ''<Permission denied>'' @ println [], [])
      else
        let rel_path = (case relpath (cwd e) file_path base_dir of
                          Returns r \<Rightarrow> r
                        | Raises _ \<Rightarrow> file_path);
            header = println (''// '' @ rel_path)
        in if parse_pdf \<and> is_pdf_file file_path then
             (header @ println (extract_pdf_text e file_path) @ println [], [])
           else if fst (is_binary_file fd file_path) then
             (header @ println ''<Binary file>'' @ println [], snd (is_binary_file fd file_path))
           else
             (case f_text fd of
                Inr content \<Rightarrow> header @ println content @ println []
              | Inl UnicodeDecodeError \<Rightarrow>
                  header @ println ''<File contains invalid Unicode characters>'' @ println []
              | Inl PermissionError \<Rightarrow> header @ println ''<Permission denied>'' @ println []
              | Inl (OSError x) \<Rightarrow>
                  header @ println (''<Error reading file: '' @ x @ ''>'') @ println []
              | Inl (OtherError x) \<Rightarrow>
                  header @ println (''// '' @ file_path)
                    @ println (''<Error processing file: '' @ x @ ''>'') @ println [],
              snd (is_binary_file fd file_path)))"

section \<open>Tree walker\<close>

text \<open>
  The file system below the start directory, as \<open>os.scandir\<close> shows it: a directory
  lists its entries in some order, or fails to list with an \<open>OSError\<close>; the flag of \<open>Dir\<close>
  says that the entry is a symbolic link to the directory. Everything that is not a
  directory is a file.
\<close>

datatype fsnode =
    File string filedata
  | Dir string bool "fsnode list"
  | Unlistable string

fun entry_name :: "fsnode \<Rightarrow> string" where
  "entry_name (File n fd) = n"
| "entry_name (Dir n lnk entries) = n"
| "entry_name (Unlistable n) = n"

fun is_dir_entry :: "fsnode \<Rightarrow> bool" where
  "is_dir_entry (File n fd) = False"
| "is_dir_entry (Dir n lnk entries) = True"
| "is_dir_entry (Unlistable n) = True"

fun is_link :: "fsnode \<Rightarrow> bool" where
  "is_link (Dir n lnk entries) = lnk"
| "is_link other = False"

fun file_entries :: "fsnode list \<Rightarrow> (string \<times> filedata) list" where
  "file_entries [] = []"
| "file_entries (File n fd # rest) = (n, fd) # file_entries rest"
| "file_entries (other # rest) = file_entries rest"

text \<open>The namespace that \<open>argparse\<close> returns.\<close>

record args =
  arg_dir :: string
  arg_extensions :: "string list option"
  arg_max_depth :: "int option"
  arg_exclude :: "string list option"
  arg_include :: "string list option"
  arg_include_all :: bool
  arg_skip_binary :: bool
  arg_follow_links :: bool
  arg_allow_ignored :: bool
  arg_parse_pdf :: bool

text \<open>
  What the run leaves behind, in order: each triple that \<open>safe_walk\<close> yields to the loop
  of \<open>main\<close>, each block that \<open>process_file\<close> prints for a path, and each line of the
  log at level warning or error.
\<close>

datatype event =
    Visit string "string list" "string list"
  | FileBlock string string
  | Warning string
  | Error string

text \<open>
  The body of \<open>for d in original_dirs\<close> in \<open>safe_walk\<close>: whether \<open>d\<close> is appended to
  \<open>dirs\<close>.
\<close>

definition keep_dir ::
  "env \<Rightarrow> string \<Rightarrow> string list option \<Rightarrow> string list option \<Rightarrow> gitignore_matchers \<Rightarrow>
   bool \<Rightarrow> string \<Rightarrow> string \<Rightarrow> bool outcome" where
  "keep_dir e top_dir exclude_patterns include_patterns gitignore_matchers allow_ignored abs_root d =
     (let dir_path = join abs_root d
      in case (if truthy include_patterns then
                 (case relpath (cwd e) dir_path top_dir of
                    Raises x \<Rightarrow> Raises x
                  | Returns rel_dir_path \<Rightarrow>
                      Returns (list_ex
                        (\<lambda>pattern.
                           let norm_pattern = rstrip_sep pattern
                           in startswith rel_dir_path norm_pattern
                              \<or> startswith norm_pattern rel_dir_path)
                        (items include_patterns)))
               else Returns (\<not> is_excluded e dir_path exclude_patterns)) of
           Raises x \<Rightarrow> Raises x
         | Returns False \<Rightarrow> Returns False
         | Returns True \<Rightarrow>
             (case (if \<not> allow_ignored \<and> gitignore_matchers \<noteq> []
                    then ignored_by e gitignore_matchers dir_path
                    else Returns False) of
                Raises x \<Rightarrow> Raises x
              | Returns is_dir_ignored \<Rightarrow> Returns (\<not> is_dir_ignored)))"

text \<open>The list \<open>dirs\<close> that \<open>safe_walk\<close> yields for \<open>original_dirs\<close>, or the exception.\<close>

fun safe_walk_dirs ::
  "env \<Rightarrow> string \<Rightarrow> string list option \<Rightarrow> string list option \<Rightarrow> gitignore_matchers \<Rightarrow>
   bool \<Rightarrow> string \<Rightarrow> string list \<Rightarrow> string list outcome" where
  "safe_walk_dirs e top_dir exc inc ms allow abs_root [] = Returns []"
| "safe_walk_dirs e top_dir exc inc ms allow abs_root (d # ds) =
     (case keep_dir e top_dir exc inc ms allow abs_root d of
        Raises x \<Rightarrow> Raises x
      | Returns keep \<Rightarrow>
          (case safe_walk_dirs e top_dir exc inc ms allow abs_root ds of
             Raises x \<Rightarrow> Raises x
           | Returns kept \<Rightarrow> Returns (if keep then d # kept else kept)))"

text \<open>\<open>current_depth >= args.max_depth\<close> in \<open>main\<close>.\<close>

definition current_depth :: "args \<Rightarrow> string \<Rightarrow> nat" where
  "current_depth a root = count_sep (drop (length (arg_dir a)) root)"

definition depth_limited :: "args \<Rightarrow> string \<Rightarrow> bool" where
  "depth_limited a root =
     (case arg_max_depth a of
        None \<Rightarrow> False
      | Some d \<Rightarrow> int (current_depth a root) \<ge> d)"

text \<open>
  The body of the loop \<open>for file in sorted(files)\<close> of \<open>main\<close> for one file of the
  directory \<open>root\<close>.
\<close>

definition process_entry ::
  "env \<Rightarrow> args \<Rightarrow> string list option \<Rightarrow> gitignore_matchers \<Rightarrow> string \<Rightarrow>
   string \<Rightarrow> filedata \<Rightarrow> event list" where
  "process_entry e a exts ms root file fd =
     (if startswith file ''.'' then []
      else
        let file_path = join root file
        in case should_process_file e file_path (arg_dir a) exts (arg_exclude a)
                  (arg_include a) ms (arg_allow_ignored a) (arg_parse_pdf a) of
             Raises x \<Rightarrow> [Warning (''Error processing file '' @ file @ '': '' @ x)]
           | Returns (ok, warnings) \<Rightarrow>
               map Warning warnings @
               (if \<not> ok then []
                else if arg_skip_binary a \<and> fst (is_binary_file fd file_path)
                then map Warning (snd (is_binary_file fd file_path))
                else
                  (if arg_skip_binary a then map Warning (snd (is_binary_file fd file_path))
                   else [])
                  @ map Warning (snd (process_file e fd file_path (arg_dir a) (arg_parse_pdf a)))
                  @ [FileBlock file_path
                       (fst (process_file e fd file_path (arg_dir a) (arg_parse_pdf a)))]))"

text \<open>The loop itself, over the files in the order given.\<close>

fun process_files ::
  "env \<Rightarrow> args \<Rightarrow> string list option \<Rightarrow> gitignore_matchers \<Rightarrow> string \<Rightarrow>
   (string \<times> filedata) list \<Rightarrow> event list" where
  "process_files e a exts ms root [] = []"
| "process_files e a exts ms root ((file, fd) # rest) =
     process_entry e a exts ms root file fd @ process_files e a exts ms root rest"

definition emit_sorted ::
  "env \<Rightarrow> args \<Rightarrow> string list option \<Rightarrow> gitignore_matchers \<Rightarrow> string \<Rightarrow>
   (string \<times> filedata) list \<Rightarrow> event list" where
  "emit_sorted e a exts ms root files = process_files e a exts ms root (sort_key fst files)"

text \<open>
  Directories are walked one after the other; once the generator of \<open>safe_walk\<close> has
  ended in its handler (the flag), nothing more is walked.
\<close>

fun run_all :: "(event list \<times> bool) list \<Rightarrow> event list \<times> bool" where
  "run_all [] = ([], False)"
| "run_all ((evs, ended) # rest) =
     (if ended then (evs, True)
      else (evs @ fst (run_all rest), snd (run_all rest)))"

text \<open>\<open>os.walk\<close> goes into the entries still in \<open>dirs\<close>, a link only with \<open>followlinks\<close>.\<close>

definition descends :: "args \<Rightarrow> string list \<Rightarrow> fsnode \<Rightarrow> bool" where
  "descends a dirs c =
     (is_dir_entry c \<and> entry_name c \<in> set dirs \<and> (arg_follow_links a \<or> \<not> is_link c))"

text \<open>
  \<open>os.walk(root, topdown=True)\<close> under \<open>safe_walk\<close> and the loop of \<open>main\<close>, on the node
  found at \<open>root\<close>. \<open>os.walk\<close> is called without \<open>onerror\<close>, so a directory that cannot
  be listed is passed over in silence and yields nothing. An exception in the body of
  \<open>safe_walk\<close> is logged, \<open>(top, [], [])\<close> is yielded and the generator ends; the loop of
  \<open>main\<close> finds nothing to do for that triple.
\<close>

fun walk ::
  "env \<Rightarrow> args \<Rightarrow> string list option \<Rightarrow> gitignore_matchers \<Rightarrow> string \<Rightarrow> fsnode \<Rightarrow>
   event list \<times> bool" where
  "walk e a exts ms root (Dir n lnk entries) =
     (let dirs = map entry_name (filter is_dir_entry entries);
          files = map entry_name (filter (\<lambda>c. \<not> is_dir_entry c) entries)
      in case safe_walk_dirs e (arg_dir a) (arg_exclude a) (arg_include a) ms
                (arg_allow_ignored a) (abspath (cwd e) root) dirs of
           Raises x \<Rightarrow>
             ([Warning (''Error walking directory '' @ arg_dir a @ '': '' @ x),
               Visit (arg_dir a) [] []], True)
         | Returns kept \<Rightarrow>
             if depth_limited a root then ([Visit root kept files], False)
             else
               let shown = filter (\<lambda>d. \<not> startswith d ''.'') kept;
                   below = run_all
                     (map (\<lambda>c. walk e a exts ms (join root (entry_name c)) c)
                        (filter (descends a shown) entries))
               in (Visit root kept files
                     # emit_sorted e a exts ms root (file_entries entries) @ fst below,
                   snd below))"
| "walk e a exts ms root (File n fd) = ([], False)"
| "walk e a exts ms root (Unlistable n) = ([], False)"

section \<open>The run\<close>

definition default_excludes :: "string list" where
  "default_excludes = [''node_modules/'', ''yarn.lock'', ''package-lock.json'', ''pnpm-lock.yaml'']"

definition effective_exclude :: "args \<Rightarrow> string list option" where
  "effective_exclude a =
     (if arg_include_all a \<and> \<not> truthy (arg_include a) then Some []
      else if \<not> truthy (arg_include a) then Some (items (arg_exclude a) @ default_excludes)
      else arg_exclude a)"

definition effective_extensions :: "args \<Rightarrow> string list option" where
  "effective_extensions a =
     (if truthy (arg_extensions a)
      then Some (map (\<lambda>ext. if startswith ext ''.'' then lower ext else ''.'' @ lower ext)
                   (items (arg_extensions a)))
      else None)"

text \<open>
  \<open>main\<close> on the node found at \<open>args.dir\<close>: the events and the exit code. \<open>found\<close> is the
  list that \<open>create_gitignore_matchers(find_all_gitignore_files(args.dir))\<close> returns; it is
  loaded only without \<open>--allow-ignored\<close>.
\<close>

definition main :: "env \<Rightarrow> gitignore_matchers \<Rightarrow> args \<Rightarrow> fsnode \<Rightarrow> event list \<times> int" where
  "main e found a top_node =
     (if arg_parse_pdf a \<and> \<not> pdftotext_available e then
        ([Error ''pdftotext utility is not installed or not available in PATH'',
          Error ''Please install poppler-utils package (or equivalent) to use --parse-pdf''], 1)
      else
        let a' = a\<lparr>arg_exclude := effective_exclude a\<rparr>;
            gitignore_matchers = (if arg_allow_ignored a then [] else found)
        in (fst (walk e a' (effective_extensions a) gitignore_matchers (arg_dir a) top_node),
            0))"

text \<open>The paths for which a block was printed, in order.\<close>

fun emitted :: "event list \<Rightarrow> string list" where
  "emitted [] = []"
| "emitted (FileBlock p txt # evs) = p # emitted evs"
| "emitted (other # evs) = emitted evs"

section \<open>Notions used to state the properties\<close>

text \<open>One block of output: the header line for \<open>path\<close>, the body, an empty line.\<close>

definition block :: "string \<Rightarrow> string \<Rightarrow> string" where
  "block path body = println (''// '' @ path) @ println body @ println []"


text \<open>The test of \<open>find_git_root\<close> on one directory.\<close>

definition has_marker :: "env \<Rightarrow> string \<Rightarrow> bool" where
  "has_marker e p = path_exists e (join p ''.git'')"

text \<open>
  A name that a directory entry can have, as far as the walker is concerned: not empty
  and without a separator. \<open>names_ok\<close> asks it of every entry below a node.
\<close>

definition name_ok :: "string \<Rightarrow> bool" where
  "name_ok n = (n \<noteq> [] \<and> sep \<notin> set n)"

fun names_ok :: "fsnode \<Rightarrow> bool" where
  "names_ok (Dir n lnk entries) = (\<forall>c \<in> set entries. name_ok (entry_name c) \<and> names_ok c)"
| "names_ok (File n fd) = True"
| "names_ok (Unlistable n) = True"

text \<open>
  The path under which \<open>os.walk\<close> reports the directory reached from the start directory
  through the entries \<open>ns\<close>.
\<close>

definition dir_at :: "args \<Rightarrow> string list \<Rightarrow> string" where
  "dir_at a ns = foldl join (arg_dir a) ns"

abbreviation comps :: "string list \<Rightarrow> string" where
  "comps ns \<equiv> concat (map (\<lambda>n. n @ [sep]) ns)"

text \<open>
  The directories the walk can enter: the start directory, and every entry that
  \<open>safe_walk\<close> keeps and \<open>main\<close> leaves in \<open>dirs\<close> in a directory it has entered.
\<close>

inductive reach :: "env \<Rightarrow> args \<Rightarrow> gitignore_matchers \<Rightarrow> string list \<Rightarrow> bool"
  for e :: env and a :: args and ms :: gitignore_matchers where
  reach_top: "reach e a ms []"
| reach_step: "reach e a ms ns \<Longrightarrow> \<not> depth_limited a (dir_at a ns) \<Longrightarrow>
     keep_dir e (arg_dir a) (arg_exclude a) (arg_include a) ms (arg_allow_ignored a)
       (abspath (cwd e) (dir_at a ns)) d = Returns True \<Longrightarrow>
     \<not> startswith d ''.'' \<Longrightarrow> name_ok d \<Longrightarrow> reach e a ms (ns @ [d])"

definition event_ok :: "env \<Rightarrow> args \<Rightarrow> gitignore_matchers \<Rightarrow> event \<Rightarrow> bool" where
  "event_ok e a ms ev =
     (case ev of
        Visit r ds fs \<Rightarrow> (\<exists>ns. reach e a ms ns \<and> r = dir_at a ns)
      | FileBlock p t \<Rightarrow>
          (\<exists>ns f. reach e a ms ns \<and> \<not> depth_limited a (dir_at a ns) \<and> name_ok f
              \<and> p = join (dir_at a ns) f)
      | _ \<Rightarrow> True)"

text \<open>
  A path lies in the scope of some matcher of the list, and that matcher flags it.
\<close>

definition flagged :: "env \<Rightarrow> gitignore_matchers \<Rightarrow> string \<Rightarrow> bool" where
  "flagged e ms abs_path =
     list_ex (\<lambda>(matcher_base_dir, matcher_fn).
        commonpath abs_path (abspath (cwd e) matcher_base_dir)
          = Returns (abspath (cwd e) matcher_base_dir)
        \<and> matcher_fn abs_path = Returns True) ms"

text \<open>The same tree with every directory that cannot be listed replaced by an empty one.\<close>

fun as_empty :: "fsnode \<Rightarrow> fsnode" where
  "as_empty (Unlistable n) = Dir n False []"
| "as_empty (Dir n lnk entries) = Dir n lnk (map as_empty entries)"
| "as_empty (File n fd) = File n fd"

fun is_visit :: "event \<Rightarrow> bool" where
  "is_visit (Visit r ds fs) = True"
| "is_visit other = False"

text \<open>What a user sees of a run: the blocks printed and the lines logged.\<close>

definition printed_and_logged :: "event list \<Rightarrow> event list" where
  "printed_and_logged evs = filter (\<lambda>ev. \<not> is_visit ev) evs"

text \<open>
  The stricter test, by \<open>os.path.isdir\<close>: \<open>p\<close> holds a directory named \<open>.git\<close>.
\<close>

definition has_marker_dir :: "env \<Rightarrow> string \<Rightarrow> bool" where
  "has_marker_dir e p = path_isdir e (join p ''.git'')"

text \<open>
  The names of the files of the directory \<open>r\<close> among the paths \<open>ps\<close>, in the order of
  \<open>ps\<close>: a path counts if it is \<open>os.path.join(r, name)\<close> for its last component
  \<open>name\<close>.
\<close>

definition files_in :: "string \<Rightarrow> string list \<Rightarrow> string list" where
  "files_in r ps = map basename (filter (\<lambda>p. name_ok (basename p) \<and> p = join r (basename p)) ps)"

text \<open>No directory below the node lists two entries of the same name.\<close>

fun distinct_names :: "fsnode \<Rightarrow> bool" where
  "distinct_names (Dir n lnk entries) =
     (distinct (map entry_name entries) \<and> (\<forall>c \<in> set entries. distinct_names c))"
| "distinct_names (File n fd) = True"
| "distinct_names (Unlistable n) = True"

text \<open>
  Two trees that differ only in the order in which directories list their files: each
  directory holds the same files, of distinct names, and the same subdirectories in the
  same order, which differ in turn only in this way.
\<close>

inductive relisted :: "fsnode \<Rightarrow> fsnode \<Rightarrow> bool" where
  relisted_file: "relisted (File n fd) (File n fd)"
| relisted_unlistable: "relisted (Unlistable n) (Unlistable n)"
| relisted_dir: "list_all2 relisted (filter is_dir_entry es) (filter is_dir_entry es') \<Longrightarrow>
     mset (file_entries es') = mset (file_entries es) \<Longrightarrow>
     distinct (map fst (file_entries es)) \<Longrightarrow>
     relisted (Dir n lnk es) (Dir n lnk es')"

section \<open>Concrete inputs\<close>

text \<open>
  A matcher for shell patterns made of plain characters, \<open>*\<close> and \<open>?\<close>, on which it
  agrees with \<open>fnmatch\<close>; it stands for \<open>fnmatch\<close> in the examples.
\<close>

fun glob :: "string \<Rightarrow> string \<Rightarrow> bool" where
  "glob [] [] = True"
| "glob [] (x # xs) = False"
| "glob (c # p) [] = (c = CHR ''*'' \<and> glob p [])"
| "glob (c # p) (x # xs) =
     (if c = CHR ''*'' then glob p (x # xs) \<or> glob (c # p) xs
      else (c = CHR ''?'' \<or> c = x) \<and> glob p xs)"

definition example_env :: env where
  "example_env =
     \<lparr>cwd = ''/w'',
      fnmatch = (\<lambda>name pattern. glob pattern name),
      path_exists = (\<lambda>p. p = ''/repo/.git''),
      path_isdir = (\<lambda>p. p = ''/repo/.git''),
      pdftotext_available = True,
      extract_pdf_text = (\<lambda>p. ''extracted text'')\<rparr>"

text \<open>
  The same with a submodule in \<open>/repo/src\<close>: there \<open>.git\<close> is a regular file that points
  to the repository of the submodule.
\<close>

definition submodule_env :: env where
  "submodule_env =
     example_env\<lparr>path_exists := (\<lambda>p. p = ''/repo/.git'' \<or> p = ''/repo/src/.git'')\<rparr>"

definition example_args :: "string \<Rightarrow> args" where
  "example_args d =
     \<lparr>arg_dir = d, arg_extensions = None, arg_max_depth = None, arg_exclude = None,
      arg_include = None, arg_include_all = False, arg_skip_binary = False,
      arg_follow_links = False, arg_allow_ignored = False, arg_parse_pdf = False\<rparr>"

text \<open>A readable text file, a readable file with a zero byte, a file of mode 000.\<close>

definition text_file :: "string \<Rightarrow> filedata" where
  "text_file s =
     \<lparr>f_exists = True, f_readable = True, f_bytes = Returns [104, 105], f_text = Inr s\<rparr>"



text \<open>
  The matcher that \<open>gitignore_parser\<close> compiles from a file \<open>/repo/.gitignore\<close> with the
  two lines \<open>build/\<close> and \<open>!build/keep.txt\<close>: it flags the directory and what lies under
  it, the one file apart. And a matcher that raises.
\<close>

definition build_rules :: matcher where
  "build_rules p =
     Returns ((p = ''/repo/build'' \<or> startswith p ''/repo/build/'')
              \<and> p \<noteq> ''/repo/build/keep.txt'')"

definition failing_matcher :: matcher where
  "failing_matcher p = Raises ''boom''"

definition build_tree :: fsnode where
  "build_tree =
     Dir ''build'' False
       [File ''keep.txt'' (text_file ''kept''), File ''out.txt'' (text_file ''out'')]"

definition repo_tree :: fsnode where
  "repo_tree =
     Dir ''repo'' False
       [Dir ''build'' False
          [File ''keep.txt'' (text_file ''kept''), File ''out.txt'' (text_file ''out'')],
        Dir ''src'' False [File ''main.py'' (text_file ''main'')]]"

definition deep_tree :: fsnode where
  "deep_tree =
     Dir ''r'' False
       [File ''a.txt'' (text_file ''a''),
        Dir ''sub'' False
          [File ''b.txt'' (text_file ''b''),
           Dir ''deeper'' False [File ''c.txt'' (text_file ''c'')]]]"

definition locked_tree :: fsnode where
  "locked_tree = Dir ''r'' False [Unlistable ''locked'', File ''a.txt'' (text_file ''a'')]"


text \<open>
  A directory that lists its files out of order, and the same directory listing them
  in order.
\<close>

definition shuffled_tree :: fsnode where
  "shuffled_tree =
     Dir ''r'' False
       [File ''b.txt'' (text_file ''b''),
        Dir ''sub'' False [File ''d.txt'' (text_file ''d''), File ''c.txt'' (text_file ''c'')],
        File ''a.txt'' (text_file ''a'')]"

definition ordered_tree :: fsnode where
  "ordered_tree =
     Dir ''r'' False
       [File ''a.txt'' (text_file ''a''),
        File ''b.txt'' (text_file ''b''),
        Dir ''sub'' False [File ''c.txt'' (text_file ''c''), File ''d.txt'' (text_file ''d'')]]"


section \<open>The path filter\<close>

text \<open>
  C1. In include mode the exclude patterns play no part: when the include list is not
  empty, the decision of \<open>should_process_file\<close> on a file, the decision of \<open>safe_walk\<close> on
  one directory and the list of directories \<open>safe_walk\<close> yields are the same for any two
  exclude lists.
\<close>

theorem include_mode_ignores_exclude:
  assumes "truthy include_patterns"
  shows "should_process_file e file_path base_dir extensions ex1 include_patterns ms allow pdf
           = should_process_file e file_path base_dir extensions ex2 include_patterns ms allow pdf
       \<and> keep_dir e top_dir ex1 include_patterns ms allow abs_root d
           = keep_dir e top_dir ex2 include_patterns ms allow abs_root d
       \<and> safe_walk_dirs e top_dir ex1 include_patterns ms allow abs_root ds
           = safe_walk_dirs e top_dir ex2 include_patterns ms allow abs_root ds"
proof -
  have f: "should_process_file e file_path base_dir extensions ex1 include_patterns ms allow pdf
           = should_process_file e file_path base_dir extensions ex2 include_patterns ms allow pdf"
    using assms by (simp add: should_process_file_def should_process_file_try_def)
  have k: "keep_dir e top_dir ex1 include_patterns ms allow abs_root x
           = keep_dir e top_dir ex2 include_patterns ms allow abs_root x" for x
    using assms by (simp add: keep_dir_def)
  have "safe_walk_dirs e top_dir ex1 include_patterns ms allow abs_root ds
           = safe_walk_dirs e top_dir ex2 include_patterns ms allow abs_root ds"
    by (induction ds) (simp_all add: k cong: outcome.case_cong)
  with f k show ?thesis
    by simp
qed

theorem include_mode_ignores_exclude_witness:
  "truthy (Some [''src/''])
   \<and> should_process_file example_env ''/r/src/a.py'' ''/r'' None (Some [''src/''])
       (Some [''src/'']) [] False False = Returns (True, [])
   \<and> should_process_file example_env ''/r/src/a.py'' ''/r'' None None
       (Some [''src/'']) [] False False = Returns (True, [])
   \<and> should_process_file example_env ''/r/src/a.py'' ''/r'' None (Some [''src/''])
       None [] False False = Returns (False, [])"
proof -
  have h: "truthy (Some [''src/''])"
    by simp
  have a: "should_process_file example_env ''/r/src/a.py'' ''/r'' None None
       (Some [''src/'']) [] False False = Returns (True, [])"
    by code_simp
  have c: "should_process_file example_env ''/r/src/a.py'' ''/r'' None (Some [''src/''])
       None [] False False = Returns (False, [])"
    by code_simp
  from include_mode_ignores_exclude[OF h, of example_env "''/r/src/a.py''" "''/r''" None
      "Some [''src/'']" "[]" False False None]
  have "should_process_file example_env ''/r/src/a.py'' ''/r'' None (Some [''src/''])
       (Some [''src/'']) [] False False
     = should_process_file example_env ''/r/src/a.py'' ''/r'' None None
       (Some [''src/'']) [] False False"
    by blast
  with h a c show ?thesis
    by simp
qed

text \<open>
  C10. \<open>should_process_file\<close> always returns a truth value and never raises: when a
  check inside its \<open>try\<close> raises, the answer is \<open>False\<close>; otherwise it is the answer of
  the checks, with nothing logged.
\<close>

theorem should_process_file_total:
  "\<exists>b w. should_process_file e file_path base_dir extensions ex inc ms allow pdf = Returns (b, w)
     \<and> (\<forall>x. should_process_file_try e file_path base_dir extensions ex inc ms allow pdf = Raises x
            \<longrightarrow> \<not> b)
     \<and> (\<forall>r. should_process_file_try e file_path base_dir extensions ex inc ms allow pdf = Returns r
            \<longrightarrow> b = r \<and> w = [])"
proof (cases "should_process_file_try e file_path base_dir extensions ex inc ms allow pdf")
  case (Returns r)
  then show ?thesis
    unfolding should_process_file_def by simp
next
  case (Raises x)
  then show ?thesis
    unfolding should_process_file_def by (intro exI[of _ False]) simp
qed

theorem should_process_file_total_witness:
  "should_process_file_try example_env ''/r/a.txt'' ''/r'' None None None
       [(''/r'', failing_matcher)] False False = Raises ''boom''
   \<and> fst (case should_process_file example_env ''/r/a.txt'' ''/r'' None None None
              [(''/r'', failing_matcher)] False False of
            Returns r \<Rightarrow> r | Raises x \<Rightarrow> (True, [])) = False"
proof -
  have t: "should_process_file_try example_env ''/r/a.txt'' ''/r'' None None None
       [(''/r'', failing_matcher)] False False = Raises ''boom''"
    by code_simp
  from should_process_file_total[of example_env "''/r/a.txt''" "''/r''" None None None
      "[(''/r'', failing_matcher)]" False False]
  obtain b w where
    "should_process_file example_env ''/r/a.txt'' ''/r'' None None None
       [(''/r'', failing_matcher)] False False = Returns (b, w)"
    "\<forall>x. should_process_file_try example_env ''/r/a.txt'' ''/r'' None None None
       [(''/r'', failing_matcher)] False False = Raises x \<longrightarrow> \<not> b"
    by blast
  with t show ?thesis
    by simp
qed

section \<open>The content emitter\<close>

lemma emitted_append: "emitted (xs @ ys) = emitted xs @ emitted ys"
  by (induction xs rule: emitted.induct) simp_all

lemma emitted_warnings: "emitted (map Warning ws) = []"
  by (induction ws) simp_all

lemma emitted_iff: "p \<in> set (emitted evs) \<longleftrightarrow> (\<exists>t. FileBlock p t \<in> set evs)"
  by (induction evs rule: emitted.induct) auto

lemma process_entry_emitted:
  "emitted (process_entry e a exts ms root fname fd) = []
   \<or> emitted (process_entry e a exts ms root fname fd) = [join root fname]"
proof (cases "startswith fname ''.''")
  case True
  then show ?thesis
    by (simp add: process_entry_def)
next
  case False
  show ?thesis
  proof (cases "should_process_file e (join root fname) (arg_dir a) exts (arg_exclude a)
                  (arg_include a) ms (arg_allow_ignored a) (arg_parse_pdf a)")
    case (Raises x)
    with False show ?thesis
      by (simp add: process_entry_def)
  next
    case (Returns r)
    obtain ok ws where r: "r = (ok, ws)"
      by (cases r)
    show ?thesis
      using False Returns r
      by (simp add: process_entry_def emitted_append emitted_warnings Let_def)
  qed
qed

lemma process_files_emitted:
  "emitted (process_files e a exts ms root fs)
     = map (\<lambda>f. join root (fst f))
         (filter (\<lambda>f. emitted (process_entry e a exts ms root (fst f) (snd f)) \<noteq> []) fs)"
proof (induction fs)
  case Nil
  show ?case
    by simp
next
  case (Cons f fs)
  obtain fname fd where f: "f = (fname, fd)"
    by (cases f)
  show ?case
    using process_entry_emitted[of e a exts ms root fname fd] Cons
    unfolding f by (auto simp: emitted_append)
qed

lemma filter_distinct_key:
  "distinct (map f xs) \<Longrightarrow> k \<in> set xs \<Longrightarrow> filter (\<lambda>x. f k = f x) xs = [k]"
proof (induction xs)
  case Nil
  then show ?case
    by simp
next
  case (Cons x xs)
  then show ?case
    by (cases "k = x") (auto simp: filter_empty_conv image_iff)
qed













section \<open>The root locator\<close>

lemma find_git_root_from_Some:
  "find_git_root_from e p = Some r \<Longrightarrow>
   \<exists>n. r = (dirname ^^ n) p \<and> has_marker e r \<and> (\<forall>m<n. \<not> has_marker e ((dirname ^^ m) p))"
proof (induction e p rule: find_git_root_from.induct)
  case (1 e p)
  show ?case
  proof (cases "has_marker e p")
    case True
    with "1.prems" have "r = p"
      by (simp add: has_marker_def find_git_root_from.simps[of e p])
    with True show ?thesis
      by (intro exI[of _ 0]) simp
  next
    case False
    with "1.prems" have ne: "dirname p \<noteq> p" and rec: "find_git_root_from e (dirname p) = Some r"
      by (auto simp: has_marker_def Let_def find_git_root_from.simps[of e p] split: if_splits)
    from "1.IH"[OF _ refl ne rec] False obtain n where
      n: "r = (dirname ^^ n) (dirname p)" "has_marker e r"
         "\<forall>m<n. \<not> has_marker e ((dirname ^^ m) (dirname p))"
      by (auto simp: has_marker_def)
    have "\<forall>m<Suc n. \<not> has_marker e ((dirname ^^ m) p)"
    proof (intro allI impI)
      fix m assume "m < Suc n"
      then show "\<not> has_marker e ((dirname ^^ m) p)"
        using False n(3) by (cases m) (simp_all add: funpow_swap1)
    qed
    with n(1,2) show ?thesis
      by (intro exI[of _ "Suc n"]) (simp add: funpow_swap1)
  qed
qed

lemma find_git_root_from_None:
  "find_git_root_from e p = None \<Longrightarrow> \<not> has_marker e ((dirname ^^ n) p)"
proof (induction e p arbitrary: n rule: find_git_root_from.induct)
  case (1 e p)
  from "1.prems" have nm: "\<not> has_marker e p"
    by (auto simp: has_marker_def find_git_root_from.simps[of e p] split: if_splits)
  show ?case
  proof (cases "dirname p = p")
    case True
    then have "(dirname ^^ n) p = p"
      by (induction n) simp_all
    with nm show ?thesis
      by simp
  next
    case False
    with "1.prems" nm have rec: "find_git_root_from e (dirname p) = None"
      by (auto simp: has_marker_def Let_def find_git_root_from.simps[of e p] split: if_splits)
    show ?thesis
    proof (cases n)
      case 0
      with nm show ?thesis
        by simp
    next
      case (Suc k)
      from "1.IH"[OF _ refl False rec, of k] nm show ?thesis
        by (simp add: Suc funpow_swap1 has_marker_def)
    qed
  qed
qed

text \<open>
  C8. The claim fails where the marker is not a directory: \<open>find_git_root\<close> asks whether
  the path \<open>.git\<close> exists. In a checkout with a submodule at \<open>/repo/src\<close>, where \<open>.git\<close> is
  a file, the nearest ancestor of \<open>/repo/src/pkg\<close> that holds a directory \<open>.git\<close> is
  \<open>/repo\<close>; the function returns \<open>/repo/src\<close>.
\<close>

theorem marker_file_counterexample:
  "(dirname ^^ 1) (abspath (cwd submodule_env) ''/repo/src/pkg'') = ''/repo/src''
   \<and> (dirname ^^ 2) (abspath (cwd submodule_env) ''/repo/src/pkg'') = ''/repo''
   \<and> \<not> has_marker_dir submodule_env ''/repo/src/pkg''
   \<and> \<not> has_marker_dir submodule_env ''/repo/src''
   \<and> has_marker_dir submodule_env ''/repo''
   \<and> find_git_root submodule_env ''/repo/src/pkg'' = Some ''/repo/src''"
  by code_simp

text \<open>
  C8, as amended. The marker is an entry named \<open>.git\<close>, of whatever kind: a directory
  holds it if \<open>os.path.exists\<close> says so of the joined path. The ancestors of the start
  path are its absolute form and what repeated \<open>os.path.dirname\<close> makes of it. If some
  ancestor holds the marker, \<open>find_git_root\<close> returns the nearest one that does: no
  ancestor reached in fewer steps holds it. If no ancestor holds the marker, it returns
  \<open>None\<close>.
\<close>

theorem find_git_root_nearest:
  "(has_marker e ((dirname ^^ n) (abspath (cwd e) start_path)) \<longrightarrow>
      (\<exists>k\<le>n. find_git_root e start_path = Some ((dirname ^^ k) (abspath (cwd e) start_path))
          \<and> has_marker e ((dirname ^^ k) (abspath (cwd e) start_path))
          \<and> (\<forall>m<k. \<not> has_marker e ((dirname ^^ m) (abspath (cwd e) start_path)))))
   \<and> ((\<forall>m. \<not> has_marker e ((dirname ^^ m) (abspath (cwd e) start_path))) \<longrightarrow>
        find_git_root e start_path = None)"
proof (intro conjI impI)
  let ?p = "abspath (cwd e) start_path"
  assume mark: "has_marker e ((dirname ^^ n) ?p)"
  show "\<exists>k\<le>n. find_git_root e start_path = Some ((dirname ^^ k) ?p)
          \<and> has_marker e ((dirname ^^ k) ?p)
          \<and> (\<forall>m<k. \<not> has_marker e ((dirname ^^ m) ?p))"
  proof (cases "find_git_root_from e ?p")
    case None
    from find_git_root_from_None[OF None, of n] mark show ?thesis
      by simp
  next
    case (Some r)
    from find_git_root_from_Some[OF Some] obtain k where
      k: "r = (dirname ^^ k) ?p" "has_marker e r" "\<forall>m<k. \<not> has_marker e ((dirname ^^ m) ?p)"
      by blast
    from k(3) mark have "k \<le> n"
      by (meson not_le)
    with k Some show ?thesis
      by (auto simp: find_git_root_def)
  qed
next
  let ?p = "abspath (cwd e) start_path"
  assume none: "\<forall>m. \<not> has_marker e ((dirname ^^ m) ?p)"
  show "find_git_root e start_path = None"
  proof (cases "find_git_root_from e ?p")
    case None
    then show ?thesis
      by (simp add: find_git_root_def)
  next
    case (Some r)
    from find_git_root_from_Some[OF Some] none show ?thesis
      by blast
  qed
qed

theorem find_git_root_nearest_witness:
  "has_marker example_env ((dirname ^^ 2) (abspath (cwd example_env) ''/repo/src/pkg''))
   \<and> (dirname ^^ 2) (abspath (cwd example_env) ''/repo/src/pkg'') = ''/repo''
   \<and> \<not> has_marker example_env ''/repo/src/pkg'' \<and> \<not> has_marker example_env ''/repo/src''
   \<and> find_git_root example_env ''/repo/src/pkg'' = Some ''/repo''"
proof -
  let ?p = "abspath (cwd example_env) ''/repo/src/pkg''"
  have h: "has_marker example_env ((dirname ^^ 2) ?p)"
    by code_simp
  have a0: "(dirname ^^ 0) ?p = ''/repo/src/pkg''" and a1: "(dirname ^^ 1) ?p = ''/repo/src''"
    and a2: "(dirname ^^ 2) ?p = ''/repo''"
    by code_simp+
  have n0: "\<not> has_marker example_env ''/repo/src/pkg''"
    and n1: "\<not> has_marker example_env ''/repo/src''"
    by code_simp+
  from find_git_root_nearest[of example_env 2 "''/repo/src/pkg''"] h obtain k where
    k: "k \<le> 2" "find_git_root example_env ''/repo/src/pkg'' = Some ((dirname ^^ k) ?p)"
       "has_marker example_env ((dirname ^^ k) ?p)"
    by blast
  from k(1) have "k = 0 \<or> k = 1 \<or> k = 2"
    by auto
  with k(3) a0 a1 n0 n1 have "k = 2"
    by auto
  with k(2) a2 have "find_git_root example_env ''/repo/src/pkg'' = Some ''/repo''"
    by simp
  with h a2 n0 n1 show ?thesis
    by blast
qed

section \<open>The tree walker\<close>

subsection \<open>What a walk can produce\<close>

lemma safe_walk_dirs_kept:
  "safe_walk_dirs e t exc inc ms allow abs_root ds = Returns kept \<Longrightarrow> d \<in> set kept \<Longrightarrow>
   keep_dir e t exc inc ms allow abs_root d = Returns True \<and> d \<in> set ds"
proof (induction ds arbitrary: kept)
  case Nil
  then show ?case
    by simp
next
  case (Cons x ds)
  then show ?case
    by (auto split: outcome.splits if_splits)
qed

lemma run_all_events:
  "ev \<in> set (fst (run_all rs)) \<Longrightarrow> \<exists>r \<in> set rs. ev \<in> set (fst r)"
proof (induction rs)
  case Nil
  then show ?case
    by simp
next
  case (Cons r rs)
  obtain evs ended where r: "r = (evs, ended)"
    by (cases r)
  from Cons show ?case
    unfolding r by (auto split: if_splits)
qed

lemma process_entry_events:
  assumes "ev \<in> set (process_entry e a exts ms root fname fd)"
  shows "(\<exists>w. ev = Warning w) \<or> (\<exists>t. ev = FileBlock (join root fname) t)"
proof (cases "startswith fname ''.''")
  case True
  with assms show ?thesis
    by (simp add: process_entry_def)
next
  case False
  show ?thesis
  proof (cases "should_process_file e (join root fname) (arg_dir a) exts (arg_exclude a)
                  (arg_include a) ms (arg_allow_ignored a) (arg_parse_pdf a)")
    case (Raises x)
    with False assms show ?thesis
      by (simp add: process_entry_def)
  next
    case (Returns r)
    obtain ok ws where r: "r = (ok, ws)"
      by (cases r)
    show ?thesis
      using False Returns r assms
      by (auto simp: process_entry_def Let_def split: if_splits)
  qed
qed

lemma process_files_events:
  "ev \<in> set (process_files e a exts ms root fs) \<Longrightarrow>
   (\<exists>w. ev = Warning w) \<or> (\<exists>f t. f \<in> fst ` set fs \<and> ev = FileBlock (join root f) t)"
proof (induction fs)
  case Nil
  then show ?case
    by simp
next
  case (Cons f fs)
  obtain fname fd where f: "f = (fname, fd)"
    by (cases f)
  from Cons.prems have "ev \<in> set (process_entry e a exts ms root fname fd)
      \<or> ev \<in> set (process_files e a exts ms root fs)"
    by (simp add: f)
  then show ?case
  proof
    assume "ev \<in> set (process_entry e a exts ms root fname fd)"
    from process_entry_events[OF this] show ?thesis
      by (auto simp: f)
  next
    assume "ev \<in> set (process_files e a exts ms root fs)"
    from Cons.IH[OF this] show ?thesis
      by auto
  qed
qed

lemma file_entries_names:
  "f \<in> fst ` set (file_entries entries) \<Longrightarrow> \<exists>c \<in> set entries. entry_name c = f"
  by (induction entries rule: file_entries.induct) auto

lemma emit_sorted_events:
  "ev \<in> set (emit_sorted e a exts ms root fs) \<Longrightarrow>
   (\<exists>w. ev = Warning w) \<or> (\<exists>f t. f \<in> fst ` set fs \<and> ev = FileBlock (join root f) t)"
  unfolding emit_sorted_def using process_files_events[of ev e a exts ms root "sort_key fst fs"]
  by simp

text \<open>
  Every triple comes from a directory the walk can enter, and every block from a file
  of such a directory that the depth check let through.
\<close>

lemma walk_events:
  "names_ok node \<Longrightarrow> reach e a ms ns \<Longrightarrow> ev \<in> set (fst (walk e a exts ms (dir_at a ns) node)) \<Longrightarrow>
   event_ok e a ms ev"
proof (induction node arbitrary: ns ev)
  case (File n fd)
  then show ?case
    by simp
next
  case (Unlistable n)
  then show ?case
    by simp
next
  case (Dir n lnk entries)
  let ?root = "dir_at a ns"
  let ?dirs = "map entry_name (filter is_dir_entry entries)"
  let ?files = "map entry_name (filter (\<lambda>c. \<not> is_dir_entry c) entries)"
  have start: "event_ok e a ms (Visit (arg_dir a) xs ys)" for xs ys
    using reach_top[of e a ms] by (auto simp: event_ok_def dir_at_def intro!: exI[of _ "[]"])
  have here: "event_ok e a ms (Visit ?root xs ys)" for xs ys
    using Dir.prems(2) by (auto simp: event_ok_def)
  show ?case
  proof (cases "safe_walk_dirs e (arg_dir a) (arg_exclude a) (arg_include a) ms
                  (arg_allow_ignored a) (abspath (cwd e) ?root) ?dirs")
    case (Raises x)
    with Dir.prems(3) have "ev = Warning (''Error walking directory '' @ arg_dir a @ '': '' @ x)
        \<or> ev = Visit (arg_dir a) [] []"
      by (simp add: Let_def)
    then show ?thesis
      using start by (auto simp: event_ok_def)
  next
    case (Returns kept)
    show ?thesis
    proof (cases "depth_limited a ?root")
      case True
      with Returns Dir.prems(3) have "ev = Visit ?root kept ?files"
        by (simp add: Let_def)
      then show ?thesis
        using here by simp
    next
      case False
      let ?shown = "filter (\<lambda>d. \<not> startswith d ''.'') kept"
      let ?subs = "map (\<lambda>c. walk e a exts ms (join ?root (entry_name c)) c)
                        (filter (descends a ?shown) entries)"
      from Returns False Dir.prems(3) have
        "ev = Visit ?root kept ?files
         \<or> ev \<in> set (emit_sorted e a exts ms ?root (file_entries entries))
         \<or> ev \<in> set (fst (run_all ?subs))"
        by (simp add: Let_def)
      then show ?thesis
      proof (elim disjE)
        assume "ev = Visit ?root kept ?files"
        then show ?thesis
          using here by simp
      next
        assume "ev \<in> set (emit_sorted e a exts ms ?root (file_entries entries))"
        from emit_sorted_events[OF this] show ?thesis
        proof
          assume "\<exists>w. ev = Warning w"
          then show ?thesis
            by (auto simp: event_ok_def)
        next
          assume "\<exists>f t. f \<in> fst ` set (file_entries entries) \<and> ev = FileBlock (join ?root f) t"
          then obtain f t where f: "f \<in> fst ` set (file_entries entries)"
            and ev: "ev = FileBlock (join ?root f) t"
            by blast
          from file_entries_names[OF f] Dir.prems(1) have "name_ok f"
            by auto
          with ev False Dir.prems(2) show ?thesis
            by (auto simp: event_ok_def)
        qed
      next
        assume "ev \<in> set (fst (run_all ?subs))"
        from run_all_events[OF this] obtain c where
          c: "c \<in> set entries" "descends a ?shown c"
          and evc: "ev \<in> set (fst (walk e a exts ms (join ?root (entry_name c)) c))"
          by auto
        from c(2) have "entry_name c \<in> set kept" and nh: "\<not> startswith (entry_name c) ''.''"
          by (auto simp: descends_def)
        from safe_walk_dirs_kept[OF Returns this(1)] have
          k: "keep_dir e (arg_dir a) (arg_exclude a) (arg_include a) ms (arg_allow_ignored a)
                (abspath (cwd e) ?root) (entry_name c) = Returns True"
          by simp
        from c(1) Dir.prems(1) have ok: "name_ok (entry_name c)" "names_ok c"
          by auto
        have r: "reach e a ms (ns @ [entry_name c])"
          using reach_step[OF Dir.prems(2) False k nh ok(1)] .
        have "dir_at a (ns @ [entry_name c]) = join ?root (entry_name c)"
          by (simp add: dir_at_def)
        with Dir.IH[OF c(1) ok(2) r] evc show ?thesis
          by simp
      qed
    qed
  qed
qed

lemma main_events:
  assumes "names_ok t" and "ev \<in> set (fst (main e found a t))"
  shows "(\<exists>x. ev = Error x)
     \<or> event_ok e (a\<lparr>arg_exclude := effective_exclude a\<rparr>)
          (if arg_allow_ignored a then [] else found) ev"
proof (cases "arg_parse_pdf a \<and> \<not> pdftotext_available e")
  case True
  with assms(2) show ?thesis
    by (auto simp: main_def)
next
  case False
  let ?a = "a\<lparr>arg_exclude := effective_exclude a\<rparr>"
  let ?ms = "if arg_allow_ignored a then [] else found"
  from False assms(2) have
    "ev \<in> set (fst (walk e ?a (effective_extensions a) ?ms (dir_at ?a []) t))"
    by (auto simp: main_def Let_def dir_at_def)
  from walk_events[OF assms(1) reach_top this] show ?thesis
    by simp
qed

lemma reach_names: "reach e a ms ns \<Longrightarrow> list_all name_ok ns"
  by (induction rule: reach.induct) simp_all

lemma reach_kept:
  "reach e a ms ks \<Longrightarrow> prefix (ns @ [d]) ks \<Longrightarrow>
   keep_dir e (arg_dir a) (arg_exclude a) (arg_include a) ms (arg_allow_ignored a)
     (abspath (cwd e) (dir_at a ns)) d = Returns True"
proof (induction rule: reach.induct)
  case reach_top
  then show ?case
    by simp
next
  case (reach_step ks d')
  from reach_step.prems have "ns @ [d] = ks @ [d'] \<or> prefix (ns @ [d]) ks"
    by (simp add: prefix_snoc)
  then show ?case
    using reach_step by auto
qed

subsection \<open>Paths below the start directory\<close>

lemma join_name: "name_ok n \<Longrightarrow> join r n = join r [] @ n"
  by (cases n) (auto simp: join_def name_ok_def startswith_def)

lemma ends_sep: "endswith s ''/'' \<longleftrightarrow> s \<noteq> [] \<and> last s = sep"
  by (cases s rule: rev_cases) (auto simp: endswith_def)

lemma join_empty: "s \<noteq> [] \<Longrightarrow> \<not> endswith s ''/'' \<Longrightarrow> join s [] = s @ ''/''"
  by (simp add: join_def startswith_def)

lemma self_prefix_slashed: "prefix r (join r [])"
  by (simp add: join_def startswith_def)

lemma join_name_slashed: "name_ok n \<Longrightarrow> join (join r n) [] = join r [] @ n @ [sep]"
proof -
  assume n: "name_ok n"
  then have eq: "join r n = join r [] @ n"
    by (rule join_name)
  from n have "n \<noteq> []" "last n \<noteq> sep"
    by (metis name_ok_def, metis last_in_set name_ok_def)
  then have "join r [] @ n \<noteq> []" "\<not> endswith (join r [] @ n) ''/''"
    by (simp_all add: ends_sep)
  from join_empty[OF this] show ?thesis
    unfolding eq by simp
qed

lemma dir_at_slashed:
  "list_all name_ok ns \<Longrightarrow> join (dir_at a ns) [] = join (arg_dir a) [] @ comps ns"
proof (induction ns rule: rev_induct)
  case Nil
  show ?case
    by (simp add: dir_at_def)
next
  case (snoc n ns)
  then have "name_ok n" and ih: "join (dir_at a ns) [] = join (arg_dir a) [] @ comps ns"
    by simp_all
  have "dir_at a (ns @ [n]) = join (dir_at a ns) n"
    by (simp add: dir_at_def)
  then show ?case
    using join_name_slashed[OF \<open>name_ok n\<close>, of "dir_at a ns"] ih by simp
qed

lemma dir_at_snoc_slashed:
  "list_all name_ok (ns @ [d]) \<Longrightarrow> join (dir_at a (ns @ [d])) [] = dir_at a (ns @ [d]) @ ''/''"
proof -
  assume ok: "list_all name_ok (ns @ [d])"
  then have d: "name_ok d"
    by simp
  have eq: "dir_at a (ns @ [d]) = join (dir_at a ns) [] @ d"
    using join_name[OF d, of "dir_at a ns"] by (simp add: dir_at_def)
  from d have "d \<noteq> []" "last d \<noteq> sep"
    by (metis name_ok_def, metis last_in_set name_ok_def)
  then have "join (dir_at a ns) [] @ d \<noteq> []" "\<not> endswith (join (dir_at a ns) [] @ d) ''/''"
    by (simp_all add: ends_sep)
  from join_empty[OF this] show ?thesis
    unfolding eq .
qed

lemma comp_head:
  "sep \<notin> set x \<Longrightarrow> sep \<notin> set y \<Longrightarrow> prefix (x @ sep # X) (y @ sep # Y) \<Longrightarrow>
   x = y \<and> prefix X Y"
proof (induction x arbitrary: y)
  case Nil
  then show ?case
    by (cases y) auto
next
  case (Cons c x)
  then show ?case
    by (cases y) auto
qed

lemma comps_prefix:
  "list_all name_ok xs \<Longrightarrow> list_all name_ok ys \<Longrightarrow> prefix (comps xs) (comps ys) \<Longrightarrow>
   prefix xs ys"
proof (induction xs arbitrary: ys)
  case Nil
  show ?case
    by simp
next
  case (Cons x xs)
  show ?case
  proof (cases ys)
    case Nil
    with Cons.prems(3) show ?thesis
      by simp
  next
    case (Cons y ys')
    from Cons.prems \<open>ys = y # ys'\<close> have
      "sep \<notin> set x" "sep \<notin> set y" "prefix (x @ sep # comps xs) (y @ sep # comps ys')"
      by (simp_all add: name_ok_def)
    from comp_head[OF this] have "x = y" "prefix (comps xs) (comps ys')"
      by simp_all
    with Cons.IH[of ys'] Cons.prems \<open>ys = y # ys'\<close> show ?thesis
      by simp
  qed
qed

lemma before_name:
  assumes f: "sep \<notin> set f" and p: "prefix (X @ [sep]) (Y @ f)"
  shows "prefix (X @ [sep]) Y"
proof -
  from p consider "prefix (X @ [sep]) Y" | us where "X @ [sep] = Y @ us" "prefix us f"
    by (auto simp: prefix_append)
  then show ?thesis
  proof cases
    case 1
    then show ?thesis .
  next
    case 2
    show ?thesis
    proof (cases "us = []")
      case True
      with 2 show ?thesis
        by simp
    next
      case False
      with 2(1) have "last us = sep"
        by (metis last_appendR last_snoc)
      with False have "sep \<in> set us"
        by (metis last_in_set)
      with 2(2) f show ?thesis
        by (meson set_mono_prefix subsetD)
    qed
  qed
qed

lemma under_components:
  assumes ks: "list_all name_ok ks" and ns: "list_all name_ok (ns @ [d])"
      and p: "prefix (join (dir_at a (ns @ [d])) []) (join (dir_at a ks) [] @ f)"
      and f: "sep \<notin> set f"
  shows "prefix (ns @ [d]) ks"
proof -
  from p have "prefix (comps (ns @ [d])) (comps ks @ f)"
    unfolding dir_at_slashed[OF ks] dir_at_slashed[OF ns] by simp
  then have "prefix ((comps ns @ d) @ [sep]) (comps ks @ f)"
    by simp
  from before_name[OF f this] have "prefix (comps (ns @ [d])) (comps ks)"
    by simp
  from comps_prefix[OF ns ks this] show ?thesis .
qed

lemma top_prefix: "list_all name_ok ns \<Longrightarrow> prefix (arg_dir a) (dir_at a ns)"
proof (induction ns rule: rev_induct)
  case Nil
  show ?case
    by (simp add: dir_at_def)
next
  case (snoc n ns)
  then have ih: "prefix (arg_dir a) (dir_at a ns)" and n: "name_ok n"
    by simp_all
  have "prefix (dir_at a ns) (join (dir_at a ns) [])"
    by (rule self_prefix_slashed)
  then have "prefix (dir_at a ns) (join (dir_at a ns) [] @ n)"
    by (rule prefix_prefix)
  with ih have "prefix (arg_dir a) (join (dir_at a ns) [] @ n)"
    by (rule prefix_order.order_trans)
  then show ?case
    using join_name[OF n, of "dir_at a ns"] by (simp add: dir_at_def)
qed

lemma count_sep_append: "count_sep (xs @ ys) = count_sep xs + count_sep ys"
  by (simp add: count_sep_def)

lemma count_sep_name: "name_ok n \<Longrightarrow> count_sep n = 0"
  by (auto simp: count_sep_def name_ok_def filter_empty_conv)

lemma depth_step:
  assumes "prefix top_dir r" and "name_ok n"
  shows "count_sep (drop (length top_dir) (join r n)) \<le> count_sep (drop (length top_dir) r) + 1"
proof -
  from assms(1) have len: "length top_dir \<le> length r"
    by (rule prefix_length_le)
  have "join r [] = r \<or> join r [] = r @ ''/''"
    by (simp add: join_def startswith_def)
  moreover have "count_sep ''/'' = 1"
    by (simp add: count_sep_def)
  ultimately show ?thesis
    using len by (auto simp: join_name[OF assms(2)] count_sep_append count_sep_name[OF assms(2)])
qed

lemma reach_depth:
  "reach e a ms ks \<Longrightarrow> arg_max_depth a = Some d \<Longrightarrow>
   ks = [] \<or> int (current_depth a (dir_at a ks)) \<le> d"
proof (induction rule: reach.induct)
  case reach_top
  show ?case
    by simp
next
  case (reach_step ks n)
  from reach_step.hyps(2) reach_step.prems have "int (current_depth a (dir_at a ks)) < d"
    by (simp add: depth_limited_def)
  moreover have "current_depth a (dir_at a (ks @ [n])) \<le> current_depth a (dir_at a ks) + 1"
    using depth_step[OF top_prefix[OF reach_names[OF reach_step.hyps(1)]] reach_step.hyps(5)]
    by (simp add: current_depth_def dir_at_def)
  ultimately show ?case
    by simp
qed

subsection \<open>Ignore rules\<close>

lemma flagged_ignored:
  "flagged e ms p \<Longrightarrow> ignored_by e ms p \<noteq> Returns False"
proof (induction ms)
  case Nil
  then show ?case
    by (simp add: flagged_def)
next
  case (Cons m ms)
  obtain b f where m: "m = (b, f)"
    by (cases m)
  show ?case
  proof (cases "commonpath p (abspath (cwd e) b) = Returns (abspath (cwd e) b)
                 \<and> f p = Returns True")
    case True
    then show ?thesis
      by (simp add: m)
  next
    case False
    with Cons.prems have "flagged e ms p"
      by (auto simp: flagged_def m)
    from Cons.IH[OF this] show ?thesis
      by (auto simp: m Let_def split: outcome.splits bool.splits)
  qed
qed

lemma flagged_not_kept:
  assumes "\<not> allow" and "flagged e ms (join abs_root d)"
  shows "keep_dir e t exc inc ms allow abs_root d \<noteq> Returns True"
proof -
  from assms(2) have "ms \<noteq> []"
    by (auto simp: flagged_def)
  with assms(1) flagged_ignored[OF assms(2)] show ?thesis
    by (auto simp: keep_dir_def Let_def split: outcome.splits bool.splits if_splits)
qed

subsection \<open>Pruning by ignore rules\<close>

text \<open>
  C2. The claim fails for the start directory itself: \<open>safe_walk\<close> tests only the
  entries of the directories it lists, so a start directory that a matcher in scope
  flags is walked all the same, and a file in it that the matcher does not flag is
  emitted.
\<close>

theorem start_directory_counterexample:
  "flagged example_env [(''/repo'', build_rules)] ''/repo/build''
   \<and> \<not> arg_allow_ignored (example_args ''/repo/build'')
   \<and> emitted (fst (main example_env [(''/repo'', build_rules)]
        (example_args ''/repo/build'') build_tree)) = [''/repo/build/keep.txt'']"
  by code_simp

text \<open>
  C2, as amended. Let \<open>D\<close> be a directory strictly below the start directory, reached
  from it through the entries \<open>ns\<close> and then \<open>d\<close>. If ignore rules are enabled and some
  matcher in scope flags \<open>D\<close>, by the path \<open>safe_walk\<close> builds for it, then \<open>D\<close> is pruned:
  no triple is yielded for \<open>D\<close> or for a directory under it, and no file under \<open>D\<close> is
  emitted, whatever the include patterns.
\<close>

theorem ignored_directory_pruned:
  assumes "names_ok t" and "\<not> arg_allow_ignored a" and "list_all name_ok (ns @ [d])"
      and "flagged e found (join (abspath (cwd e) (dir_at a ns)) d)"
  shows "(\<forall>p \<in> set (emitted (fst (main e found a t))).
            \<not> startswith p (dir_at a (ns @ [d]) @ ''/''))
       \<and> (\<forall>r ds fs. Visit r ds fs \<in> set (fst (main e found a t)) \<longrightarrow>
            r \<noteq> dir_at a (ns @ [d]) \<and> \<not> startswith r (dir_at a (ns @ [d]) @ ''/''))"
proof -
  let ?a = "a\<lparr>arg_exclude := effective_exclude a\<rparr>"
  let ?D = "dir_at a (ns @ [d])"
  have da: "dir_at ?a ks = dir_at a ks" for ks
    by (simp add: dir_at_def)
  have slashed: "join ?D [] = ?D @ ''/''"
    using assms(3) by (rule dir_at_snoc_slashed)
  have never: False
    if r: "reach e ?a found ks" and f: "sep \<notin> set f"
      and p: "prefix (join ?D []) (join (dir_at a ks) [] @ f)" for ks f
  proof -
    from reach_names[OF r] have ks: "list_all name_ok ks" .
    from under_components[OF ks assms(3) p f] have "prefix (ns @ [d]) ks" .
    from reach_kept[OF r this] have
      "keep_dir e (arg_dir a) (effective_exclude a) (arg_include a) found (arg_allow_ignored a)
         (abspath (cwd e) (dir_at a ns)) d = Returns True"
      by (simp add: da)
    with flagged_not_kept[OF assms(2,4)] show False
      by blast
  qed
  have files: "\<not> startswith p (?D @ ''/'')" if "p \<in> set (emitted (fst (main e found a t)))"
    for p
  proof
    assume sw: "startswith p (?D @ ''/'')"
    from that obtain tx where "FileBlock p tx \<in> set (fst (main e found a t))"
      by (auto simp: emitted_iff)
    from main_events[OF assms(1) this] assms(2) obtain ks f where
      r: "reach e ?a found ks" and f: "name_ok f" and p: "p = join (dir_at ?a ks) f"
      by (auto simp: event_ok_def)
    from p f have "p = join (dir_at a ks) [] @ f"
      by (simp add: join_name da)
    with sw slashed have "prefix (join ?D []) (join (dir_at a ks) [] @ f)"
      by (simp add: startswith_def)
    from never[OF r _ this] f show False
      by (simp add: name_ok_def)
  qed
  have visits: "r \<noteq> ?D \<and> \<not> startswith r (?D @ ''/'')"
    if "Visit r ds fs \<in> set (fst (main e found a t))" for r ds fs
  proof -
    from main_events[OF assms(1) that] assms(2) obtain ks where
      r: "reach e ?a found ks" and rk: "r = dir_at a ks"
      by (auto simp: event_ok_def da)
    have "False" if "r = ?D \<or> startswith r (?D @ ''/'')"
    proof -
      from that have "prefix (join ?D []) (join r [])"
      proof
        assume "r = ?D"
        then show ?thesis
          by simp
      next
        assume "startswith r (?D @ ''/'')"
        then have "prefix (join ?D []) r"
          by (simp add: slashed startswith_def)
        then show ?thesis
          using self_prefix_slashed[of r] by (rule prefix_order.order_trans)
      qed
      then have "prefix (join ?D []) (join (dir_at a ks) [] @ [])"
        by (simp add: rk)
      from never[OF r _ this] show False
        by simp
    qed
    then show ?thesis
      by blast
  qed
  from files visits show ?thesis
    by blast
qed

theorem ignored_directory_pruned_witness:
  "names_ok repo_tree
   \<and> \<not> arg_allow_ignored ((example_args ''/repo'')\<lparr>arg_include := Some [''build'']\<rparr>)
   \<and> list_all name_ok [''build'']
   \<and> flagged example_env [(''/repo'', build_rules)]
       (join (abspath (cwd example_env)
          (dir_at ((example_args ''/repo'')\<lparr>arg_include := Some [''build'']\<rparr>) [])) ''build'')
   \<and> emitted (fst (main example_env []
         ((example_args ''/repo'')\<lparr>arg_include := Some [''build'']\<rparr>) repo_tree))
       = [''/repo/build/keep.txt'', ''/repo/build/out.txt'']
   \<and> \<not> list_ex (\<lambda>p. startswith p ''/repo/build/'')
         (emitted (fst (main example_env [(''/repo'', build_rules)]
            ((example_args ''/repo'')\<lparr>arg_include := Some [''build'']\<rparr>) repo_tree)))"
proof -
  let ?a = "(example_args ''/repo'')\<lparr>arg_include := Some [''build'']\<rparr>"
  let ?ms = "[(''/repo'', build_rules)]"
  have h1: "names_ok repo_tree"
    by code_simp
  have h2: "\<not> arg_allow_ignored ?a"
    by (simp add: example_args_def)
  have h3: "list_all name_ok ([] @ [''build''])"
    by code_simp
  have h4: "flagged example_env ?ms (join (abspath (cwd example_env) (dir_at ?a [])) ''build'')"
    by code_simp
  have i: "emitted (fst (main example_env [] ?a repo_tree))
      = [''/repo/build/keep.txt'', ''/repo/build/out.txt'']"
    by code_simp
  have D: "dir_at ?a ([] @ [''build'']) @ ''/'' = ''/repo/build/''"
    by code_simp
  from ignored_directory_pruned[OF h1 h2 h3 h4]
  have "\<forall>p \<in> set (emitted (fst (main example_env ?ms ?a repo_tree))).
          \<not> startswith p ''/repo/build/''"
    unfolding D by blast
  then have "\<not> list_ex (\<lambda>p. startswith p ''/repo/build/'')
         (emitted (fst (main example_env ?ms ?a repo_tree)))"
    by (simp add: list_ex_iff)
  with h1 h2 h3 h4 i show ?thesis
    by simp
qed

subsection \<open>The depth limit\<close>

text \<open>
  C3. With a maximum depth \<open>d\<close>, on a tree whose entries have names without a
  separator, the path of every emitted file has at most \<open>d\<close> separators after the start
  path, counted as \<open>main\<close> counts them; and every directory for which a triple is
  yielded, the start directory apart, has depth at most \<open>d\<close>: the walk does not go below
  a directory that reaches the limit.
\<close>

theorem depth_limit:
  assumes "arg_max_depth a = Some d" and "names_ok t"
  shows "(\<forall>p \<in> set (emitted (fst (main e found a t))).
            int (count_sep (drop (length (arg_dir a)) p)) \<le> d)
       \<and> (\<forall>r ds fs. Visit r ds fs \<in> set (fst (main e found a t)) \<longrightarrow>
            r = arg_dir a \<or> int (current_depth a r) \<le> d)"
proof -
  let ?a = "a\<lparr>arg_exclude := effective_exclude a\<rparr>"
  let ?ms = "if arg_allow_ignored a then [] else found"
  have da: "dir_at ?a ks = dir_at a ks" for ks
    by (simp add: dir_at_def)
  have cd: "current_depth ?a r = current_depth a r" for r
    by (simp add: current_depth_def)
  have md: "arg_max_depth ?a = Some d"
    using assms(1) by simp
  have files: "int (count_sep (drop (length (arg_dir a)) p)) \<le> d"
    if "p \<in> set (emitted (fst (main e found a t)))" for p
  proof -
    from that obtain tx where "FileBlock p tx \<in> set (fst (main e found a t))"
      by (auto simp: emitted_iff)
    from main_events[OF assms(2) this] obtain ks f where
      r: "reach e ?a ?ms ks" and nl: "\<not> depth_limited ?a (dir_at a ks)"
      and f: "name_ok f" and p: "p = join (dir_at a ks) f"
      by (auto simp: event_ok_def da)
    from nl md have "int (current_depth a (dir_at a ks)) < d"
      by (simp add: depth_limited_def cd)
    moreover have "count_sep (drop (length (arg_dir a)) p) \<le> current_depth a (dir_at a ks) + 1"
      using depth_step[OF top_prefix[OF reach_names[OF r]] f]
      by (simp add: p current_depth_def da)
    ultimately show ?thesis
      by simp
  qed
  have visits: "r = arg_dir a \<or> int (current_depth a r) \<le> d"
    if "Visit r ds fs \<in> set (fst (main e found a t))" for r ds fs
  proof -
    from main_events[OF assms(2) that] obtain ks where
      r: "reach e ?a ?ms ks" and rk: "r = dir_at a ks"
      by (auto simp: event_ok_def da)
    from reach_depth[OF r md] show ?thesis
      by (auto simp: rk cd da dir_at_def)
  qed
  from files visits show ?thesis
    by blast
qed

theorem depth_limit_witness:
  "arg_max_depth ((example_args ''/r'')\<lparr>arg_max_depth := Some 2\<rparr>) = Some 2
   \<and> names_ok deep_tree
   \<and> emitted (fst (main example_env [] ((example_args ''/r'')\<lparr>arg_max_depth := Some 2\<rparr>)
        deep_tree)) = [''/r/a.txt'', ''/r/sub/b.txt'']
   \<and> list_all (\<lambda>p. int (count_sep (drop (length ''/r'') p)) \<le> 2)
       (emitted (fst (main example_env [] ((example_args ''/r'')\<lparr>arg_max_depth := Some 2\<rparr>)
          deep_tree)))"
proof -
  let ?a = "(example_args ''/r'')\<lparr>arg_max_depth := Some 2\<rparr>"
  have h1: "arg_max_depth ?a = Some 2"
    by simp
  have h2: "names_ok deep_tree"
    by code_simp
  have v: "emitted (fst (main example_env [] ?a deep_tree)) = [''/r/a.txt'', ''/r/sub/b.txt'']"
    by code_simp
  have d: "arg_dir ?a = ''/r''"
    by (simp add: example_args_def)
  from depth_limit[OF h1 h2, of example_env "[]"]
  have "\<forall>p \<in> set (emitted (fst (main example_env [] ?a deep_tree))).
          int (count_sep (drop (length ''/r'') p)) \<le> 2"
    unfolding d by blast
  then have "list_all (\<lambda>p. int (count_sep (drop (length ''/r'') p)) \<le> 2)
       (emitted (fst (main example_env [] ?a deep_tree)))"
    by (simp add: list_all_iff)
  with h1 h2 v show ?thesis
    by blast
qed

subsection \<open>Directories that cannot be listed\<close>

lemma as_empty_entry [simp]:
  "entry_name (as_empty c) = entry_name c"
  "is_dir_entry (as_empty c) = is_dir_entry c"
  "is_link (as_empty c) = is_link c"
  by (cases c; simp)+

lemma as_empty_descends [simp]: "descends a shown (as_empty c) = descends a shown c"
  by (simp add: descends_def)

lemma as_empty_files [simp]: "file_entries (map as_empty entries) = file_entries entries"
  by (induction entries rule: file_entries.induct) simp_all

lemma as_empty_filter:
  "(\<And>c. P (as_empty c) = P c) \<Longrightarrow> filter P (map as_empty cs) = map as_empty (filter P cs)"
  by (induction cs) simp_all

lemma printed_append:
  "printed_and_logged (xs @ ys) = printed_and_logged xs @ printed_and_logged ys"
  by (simp add: printed_and_logged_def)

lemma run_all_same:
  assumes "\<And>c. c \<in> set cs \<Longrightarrow>
     printed_and_logged (fst (f c)) = printed_and_logged (fst (g c)) \<and> snd (f c) = snd (g c)"
  shows "printed_and_logged (fst (run_all (map f cs))) = printed_and_logged (fst (run_all (map g cs)))
     \<and> snd (run_all (map f cs)) = snd (run_all (map g cs))"
  using assms
proof (induction cs)
  case Nil
  show ?case
    by simp
next
  case (Cons c cs)
  obtain ef bf where f: "f c = (ef, bf)"
    by (cases "f c")
  obtain eg bg where g: "g c = (eg, bg)"
    by (cases "g c")
  from Cons.prems[of c] f g have same: "printed_and_logged ef = printed_and_logged eg" "bf = bg"
    by simp_all
  from Cons.IH Cons.prems have
    "printed_and_logged (fst (run_all (map f cs))) = printed_and_logged (fst (run_all (map g cs)))
     \<and> snd (run_all (map f cs)) = snd (run_all (map g cs))"
    by simp
  with same show ?case
    by (simp add: f g printed_append)
qed

lemma walk_as_empty:
  "printed_and_logged (fst (walk e a exts ms root (as_empty t)))
     = printed_and_logged (fst (walk e a exts ms root t))
   \<and> snd (walk e a exts ms root (as_empty t)) = snd (walk e a exts ms root t)"
proof (induction t arbitrary: root)
  case (File n fd)
  show ?case
    by simp
next
  case (Unlistable n)
  show ?case
    by (simp add: printed_and_logged_def emit_sorted_def)
next
  case (Dir n lnk entries)
  have dirs: "map entry_name (filter is_dir_entry (map as_empty entries))
      = map entry_name (filter is_dir_entry entries)"
    by (simp add: as_empty_filter comp_def)
  have files: "map entry_name (filter (\<lambda>c. \<not> is_dir_entry c) (map as_empty entries))
      = map entry_name (filter (\<lambda>c. \<not> is_dir_entry c) entries)"
    by (simp add: as_empty_filter comp_def)
  have subs: "map (\<lambda>c. walk e a exts ms (join root (entry_name c)) c)
        (filter (descends a shown) (map as_empty entries))
      = map (\<lambda>c. walk e a exts ms (join root (entry_name c)) (as_empty c))
          (filter (descends a shown) entries)" for shown
    by (simp add: as_empty_filter comp_def)
  have below: "printed_and_logged (fst (run_all
          (map (\<lambda>c. walk e a exts ms (join root (entry_name c)) (as_empty c))
             (filter (descends a shown) entries))))
      = printed_and_logged (fst (run_all
          (map (\<lambda>c. walk e a exts ms (join root (entry_name c)) c)
             (filter (descends a shown) entries))))
     \<and> snd (run_all
          (map (\<lambda>c. walk e a exts ms (join root (entry_name c)) (as_empty c))
             (filter (descends a shown) entries)))
      = snd (run_all
          (map (\<lambda>c. walk e a exts ms (join root (entry_name c)) c)
             (filter (descends a shown) entries)))" for shown
    by (rule run_all_same) (use Dir.IH in simp)
  show ?case
  proof (cases "safe_walk_dirs e (arg_dir a) (arg_exclude a) (arg_include a) ms
                  (arg_allow_ignored a) (abspath (cwd e) root)
                  (map entry_name (filter is_dir_entry entries))")
    case (Raises x)
    then show ?thesis
      by (simp add: dirs Let_def)
  next
    case (Returns kept)
    then show ?thesis
      using below[of "filter (\<lambda>d. \<not> startswith d ''.'') kept"]
      by (simp add: dirs files subs Let_def printed_and_logged_def)
  qed
qed

text \<open>
  C6. \<open>os.walk\<close> is called without \<open>onerror\<close> and passes over a directory it cannot
  list, so the handler of \<open>safe_walk\<close>, which would log the warning, is not reached.
  The run below has a directory that cannot be listed: its events hold the triple of
  the start directory and the block of the one file, and no warning.
\<close>

theorem listing_error_not_logged:
  "main example_env [] (example_args ''/r'') locked_tree
     = ([Visit ''/r'' [''locked''] [''a.txt''],
         FileBlock ''/r/a.txt'' (block ''a.txt'' ''a'')], 0)"
  by code_simp

text \<open>
  What the run does with such a directory: it prints and logs exactly what it would if
  the directory were empty, the walk of the other directories goes on, and the exit
  code does not depend on the tree.
\<close>

theorem listing_error_absorbed:
  "printed_and_logged (fst (main e found a (as_empty t))) = printed_and_logged (fst (main e found a t))
   \<and> snd (main e found a (as_empty t)) = snd (main e found a t)
   \<and> snd (main e found a t) = (if arg_parse_pdf a \<and> \<not> pdftotext_available e then 1 else 0)"
  using walk_as_empty[of e "a\<lparr>arg_exclude := effective_exclude a\<rparr>" "effective_extensions a"
      "if arg_allow_ignored a then [] else found" "arg_dir a" t]
  by (simp add: main_def Let_def)

theorem listing_error_absorbed_example:
  "as_empty locked_tree = Dir ''r'' False [Dir ''locked'' False [], File ''a.txt'' (text_file ''a'')]
   \<and> printed_and_logged (fst (main example_env [] (example_args ''/r'')
        (Dir ''r'' False [Dir ''locked'' False [], File ''a.txt'' (text_file ''a'')])))
     = printed_and_logged (fst (main example_env [] (example_args ''/r'') locked_tree))
   \<and> printed_and_logged (fst (main example_env [] (example_args ''/r'') locked_tree))
     = [FileBlock ''/r/a.txt'' (block ''a.txt'' ''a'')]
   \<and> snd (main example_env [] (example_args ''/r'') locked_tree) = 0"
proof -
  have t: "as_empty locked_tree
      = Dir ''r'' False [Dir ''locked'' False [], File ''a.txt'' (text_file ''a'')]"
    by (simp add: locked_tree_def)
  have v: "printed_and_logged (fst (main example_env [] (example_args ''/r'') locked_tree))
     = [FileBlock ''/r/a.txt'' (block ''a.txt'' ''a'')]"
    by code_simp
  have x: "snd (main example_env [] (example_args ''/r'') locked_tree) = 0"
    by code_simp
  from listing_error_absorbed[of example_env "[]" "example_args ''/r''" locked_tree]
  have "printed_and_logged (fst (main example_env [] (example_args ''/r'')
        (Dir ''r'' False [Dir ''locked'' False [], File ''a.txt'' (text_file ''a'')])))
     = printed_and_logged (fst (main example_env [] (example_args ''/r'') locked_tree))"
    unfolding t by blast
  with t v x show ?thesis
    by blast
qed

subsection \<open>The order of the files of a directory\<close>

lemma slashed_ends: "join r [] = [] \<or> last (join r []) = sep"
  by (cases r rule: rev_cases) (auto simp: join_def startswith_def endswith_def)

lemma basename_join: "name_ok f \<Longrightarrow> basename (join r f) = f"
proof -
  assume f: "name_ok f"
  have tw: "takeWhile (\<lambda>c. c \<noteq> sep) (rev f @ ys) = rev f @ takeWhile (\<lambda>c. c \<noteq> sep) ys" for ys
    using f by (intro takeWhile_append2) (auto simp: name_ok_def)
  have "takeWhile (\<lambda>c. c \<noteq> sep) (rev (join r [])) = []"
    using slashed_ends[of r] by (cases "join r []" rule: rev_cases) auto
  then show ?thesis
    by (simp add: join_name[OF f] basename_def tw)
qed

lemma join_unique:
  assumes "name_ok f" and "name_ok g" and "join r f = join r' g"
  shows "join r [] = join r' [] \<and> f = g"
proof -
  from assms have "f = g"
    by (metis basename_join)
  with assms show ?thesis
    by (simp add: join_name)
qed

lemma files_in_append: "files_in r (xs @ ys) = files_in r xs @ files_in r ys"
  by (simp add: files_in_def)

lemma files_in_own:
  assumes "list_all name_ok names"
  shows "files_in r (map (join root) names) = (if join r [] = join root [] then names else [])"
  using assms
proof (induction names)
  case Nil
  show ?case
    by (simp add: files_in_def)
next
  case (Cons f names)
  then have f: "name_ok f" and ih: "files_in r (map (join root) names)
      = (if join r [] = join root [] then names else [])"
    by simp_all
  have "join root f = join r f \<longleftrightarrow> join r [] = join root []"
    using f by (auto simp: join_name)
  with f ih show ?case
    using files_in_append[of r "[join root f]" "map (join root) names"]
    by (auto simp: files_in_def basename_join)
qed

lemma files_in_member:
  "g \<in> set (files_in r ps) \<Longrightarrow> \<exists>p \<in> set ps. name_ok g \<and> p = join r [] @ g"
  by (auto simp: files_in_def join_name)

lemma run_all_emitted:
  "p \<in> set (emitted (fst (run_all rs))) \<Longrightarrow> \<exists>r \<in> set rs. p \<in> set (emitted (fst r))"
  using run_all_events[of _ rs] by (auto simp: emitted_iff)

lemma emit_sorted_names:
  "\<exists>names. emitted (emit_sorted e a exts ms root files) = map (join root) names
      \<and> sorted names \<and> set names \<subseteq> fst ` set files
      \<and> (distinct (map fst files) \<longrightarrow> distinct names)"
proof -
  let ?P = "\<lambda>f. emitted (process_entry e a exts ms root (fst f) (snd f)) \<noteq> []"
  let ?names = "map fst (filter ?P (sort_key fst files))"
  have "emitted (emit_sorted e a exts ms root files) = map (join root) ?names"
    by (simp add: emit_sorted_def process_files_emitted comp_def)
  moreover have "sorted ?names"
    by (rule sorted_filter) simp
  moreover have "set ?names \<subseteq> fst ` set files"
    by auto
  moreover have "distinct ?names" if "distinct (map fst files)"
  proof -
    have "mset (map fst (sort_key fst files)) = mset (map fst files)"
      by simp
    with that have "distinct (map fst (sort_key fst files))"
      by (metis mset_eq_imp_distinct_iff)
    then show ?thesis
      by (rule distinct_map_filter)
  qed
  ultimately show ?thesis
    by blast
qed

lemma file_entries_map:
  "map fst (file_entries entries) = map entry_name (filter (\<lambda>c. \<not> is_dir_entry c) entries)"
  by (induction entries rule: file_entries.induct) simp_all

text \<open>Every emitted path of a walk lies under the directory walked.\<close>

lemma walk_under:
  "names_ok node \<Longrightarrow> p \<in> set (emitted (fst (walk e a exts ms root node))) \<Longrightarrow>
   prefix (join root []) p"
proof (induction node arbitrary: root p)
  case (File n fd)
  then show ?case
    by simp
next
  case (Unlistable n)
  then show ?case
    by simp
next
  case (Dir n lnk entries)
  let ?dirs = "map entry_name (filter is_dir_entry entries)"
  show ?case
  proof (cases "safe_walk_dirs e (arg_dir a) (arg_exclude a) (arg_include a) ms
                  (arg_allow_ignored a) (abspath (cwd e) root) ?dirs")
    case (Raises x)
    with Dir.prems(2) show ?thesis
      by (simp add: Let_def)
  next
    case (Returns kept)
    show ?thesis
    proof (cases "depth_limited a root")
      case True
      with Returns Dir.prems(2) show ?thesis
        by (simp add: Let_def)
    next
      case False
      let ?shown = "filter (\<lambda>d. \<not> startswith d ''.'') kept"
      let ?subs = "map (\<lambda>c. walk e a exts ms (join root (entry_name c)) c)
                        (filter (descends a ?shown) entries)"
      from Returns False Dir.prems(2) have
        "p \<in> set (emitted (emit_sorted e a exts ms root (file_entries entries)))
         \<or> p \<in> set (emitted (fst (run_all ?subs)))"
        by (simp add: Let_def emitted_append)
      then show ?thesis
      proof
        assume "p \<in> set (emitted (emit_sorted e a exts ms root (file_entries entries)))"
        then obtain t where "FileBlock p t \<in> set (emit_sorted e a exts ms root (file_entries entries))"
          by (auto simp: emitted_iff)
        from emit_sorted_events[OF this] obtain f where
          f: "f \<in> fst ` set (file_entries entries)" and p: "p = join root f"
          by auto
        from file_entries_names[OF f] Dir.prems(1) have "name_ok f"
          by auto
        with p show ?thesis
          by (simp add: join_name)
      next
        assume "p \<in> set (emitted (fst (run_all ?subs)))"
        from run_all_emitted[OF this] obtain c where
          c: "c \<in> set entries"
          and pc: "p \<in> set (emitted (fst (walk e a exts ms (join root (entry_name c)) c)))"
          by auto
        from c Dir.prems(1) have ok: "name_ok (entry_name c)" "names_ok c"
          by auto
        from Dir.IH[OF c ok(2) pc] have "prefix (join (join root (entry_name c)) []) p" .
        then have "prefix (join root [] @ entry_name c @ [sep]) p"
          by (simp add: join_name_slashed[OF ok(1)])
        then show ?thesis
          by (metis append_prefixD)
      qed
    qed
  qed
qed

lemma under_child:
  assumes "name_ok c" and "name_ok g" and "prefix (join root [] @ c @ [sep]) (join r [] @ g)"
  shows "prefix (join root [] @ c @ [sep]) (join r [])"
proof -
  from assms(3) have "prefix ((join root [] @ c) @ [sep]) (join r [] @ g)"
    by simp
  from before_name[OF _ this] assms(2) show ?thesis
    by (simp add: name_ok_def)
qed

lemma two_children:
  assumes "name_ok c" and "name_ok c'"
      and "prefix (X @ c @ [sep]) Y" and "prefix (X @ c' @ [sep]) Y"
  shows "c = c'"
proof -
  from assms(3,4) have "prefix (X @ c @ [sep]) (X @ c' @ [sep]) \<or> prefix (X @ c' @ [sep]) (X @ c @ [sep])"
    by (metis prefix_same_cases)
  then have "prefix (c @ sep # []) (c' @ sep # []) \<or> prefix (c' @ sep # []) (c @ sep # [])"
    by simp
  with assms(1,2) show ?thesis
    using comp_head[of c c' "[]" "[]"] comp_head[of c' c "[]" "[]"]
    by (auto simp: name_ok_def)
qed

lemma run_all_sorted:
  assumes "distinct (map entry_name cs)"
      and "\<And>c. c \<in> set cs \<Longrightarrow> name_ok (entry_name c)"
      and "\<And>c. c \<in> set cs \<Longrightarrow> sorted_wrt (<) (files_in r (emitted (fst (W c))))"
      and "\<And>c p. c \<in> set cs \<Longrightarrow> p \<in> set (emitted (fst (W c))) \<Longrightarrow>
             prefix (X @ entry_name c @ [sep]) p"
      and "X = join root []"
  shows "sorted_wrt (<) (files_in r (emitted (fst (run_all (map W cs)))))"
  using assms(1-4)
proof (induction cs)
  case Nil
  show ?case
    by (simp add: files_in_def)
next
  case (Cons c cs)
  obtain evs ended where w: "W c = (evs, ended)"
    by (cases "W c")
  have sc: "sorted_wrt (<) (files_in r (emitted evs))"
    using Cons.prems(3)[of c] w by simp
  have ih: "sorted_wrt (<) (files_in r (emitted (fst (run_all (map W cs)))))"
    using Cons.prems by (intro Cons.IH) auto
  show ?case
  proof (cases ended)
    case True
    with w sc show ?thesis
      by simp
  next
    case False
    show ?thesis
    proof (cases "files_in r (emitted evs) = []")
      case True
      with False w ih show ?thesis
        by (simp add: emitted_append files_in_append)
    next
      case ne: False
      then obtain g where "g \<in> set (files_in r (emitted evs))"
        by (meson last_in_set)
      from files_in_member[OF this] obtain p where
        p: "p \<in> set (emitted evs)" "name_ok g" "p = join r [] @ g"
        by blast
      from Cons.prems(4)[of c p] p(1) w have "prefix (X @ entry_name c @ [sep]) p"
        by simp
      with p have here: "prefix (X @ entry_name c @ [sep]) (join r [])"
        using under_child[OF Cons.prems(2)[of c] p(2), of root r] assms(5) by simp
      have "files_in r (emitted (fst (run_all (map W cs)))) = []"
      proof (rule ccontr)
        assume "files_in r (emitted (fst (run_all (map W cs)))) \<noteq> []"
        then obtain g' where "g' \<in> set (files_in r (emitted (fst (run_all (map W cs)))))"
          by (meson last_in_set)
        from files_in_member[OF this] obtain q where
          q: "q \<in> set (emitted (fst (run_all (map W cs))))" "name_ok g'" "q = join r [] @ g'"
          by blast
        from run_all_emitted[OF q(1)] obtain c' where
          c': "c' \<in> set cs" "q \<in> set (emitted (fst (W c')))"
          by auto
        from Cons.prems(4)[of c' q] c' have "prefix (X @ entry_name c' @ [sep]) q"
          by simp
        with q have "prefix (X @ entry_name c' @ [sep]) (join r [])"
          using under_child[OF Cons.prems(2)[of c'] q(2), of root r] c'(1) assms(5) by simp
        from two_children[OF Cons.prems(2)[of c] Cons.prems(2)[of c'] here this] c'(1)
        have "entry_name c = entry_name c'"
          by simp
        with c'(1) Cons.prems(1) show False
          by auto
      qed
      with False w sc show ?thesis
        by (simp add: emitted_append files_in_append)
    qed
  qed
qed

lemma walk_sorted:
  "names_ok node \<Longrightarrow> distinct_names node \<Longrightarrow>
   sorted_wrt (<) (files_in r (emitted (fst (walk e a exts ms root node))))"
proof (induction node arbitrary: root)
  case (File n fd)
  show ?case
    by (simp add: files_in_def)
next
  case (Unlistable n)
  show ?case
    by (simp add: files_in_def)
next
  case (Dir n lnk entries)
  let ?dirs = "map entry_name (filter is_dir_entry entries)"
  show ?case
  proof (cases "safe_walk_dirs e (arg_dir a) (arg_exclude a) (arg_include a) ms
                  (arg_allow_ignored a) (abspath (cwd e) root) ?dirs")
    case (Raises x)
    then show ?thesis
      by (simp add: Let_def files_in_def)
  next
    case (Returns kept)
    show ?thesis
    proof (cases "depth_limited a root")
      case True
      with Returns show ?thesis
        by (simp add: Let_def files_in_def)
    next
      case False
      let ?shown = "filter (\<lambda>d. \<not> startswith d ''.'') kept"
      let ?cs = "filter (descends a ?shown) entries"
      let ?W = "\<lambda>c. walk e a exts ms (join root (entry_name c)) c"
      let ?own = "emitted (emit_sorted e a exts ms root (file_entries entries))"
      let ?rest = "emitted (fst (run_all (map ?W ?cs)))"
      from Returns False have em: "emitted (fst (walk e a exts ms root (Dir n lnk entries)))
          = ?own @ ?rest"
        by (simp add: Let_def emitted_append)
      have dfiles: "distinct (map fst (file_entries entries))"
        using Dir.prems(2) by (simp add: file_entries_map distinct_map_filter)
      from emit_sorted_names[of e a exts ms root "file_entries entries"] dfiles obtain names where
        names: "?own = map (join root) names" "sorted names" "distinct names"
          "set names \<subseteq> fst ` set (file_entries entries)"
        by blast
      have "name_ok f" if "f \<in> set names" for f
      proof -
        from that names(4) have "f \<in> fst ` set (file_entries entries)"
          by blast
        from file_entries_names[OF this] Dir.prems(1) show ?thesis
          by auto
      qed
      then have "list_all name_ok names"
        by (simp add: list_all_iff)
      from files_in_own[OF this, of r root] names(1) have
        own: "files_in r ?own = (if join r [] = join root [] then names else [])"
        by simp
      from names(2,3) have snames: "sorted_wrt (<) names"
        by (simp add: strict_sorted_iff)
      have rest: "sorted_wrt (<) (files_in r ?rest)"
      proof (rule run_all_sorted[where X = "join root []" and root = root])
        show "distinct (map entry_name ?cs)"
          using Dir.prems(2) by (simp add: distinct_map_filter)
        show "name_ok (entry_name c)" if "c \<in> set ?cs" for c
          using that Dir.prems(1) by auto
        show "sorted_wrt (<) (files_in r (emitted (fst (?W c))))" if "c \<in> set ?cs" for c
          using that Dir.prems by (intro Dir.IH) auto
        show "prefix (join root [] @ entry_name c @ [sep]) p"
          if "c \<in> set ?cs" "p \<in> set (emitted (fst (?W c)))" for c p
        proof -
          from that(1) Dir.prems(1) have ok: "name_ok (entry_name c)" "names_ok c"
            by auto
          from walk_under[OF ok(2) that(2)] show ?thesis
            by (simp add: join_name_slashed[OF ok(1)])
        qed
        show "join root [] = join root []"
          by simp
      qed
      show ?thesis
      proof (cases "join r [] = join root []")
        case same: True
        have "files_in r ?rest = []"
        proof (rule ccontr)
          assume "files_in r ?rest \<noteq> []"
          then obtain g where "g \<in> set (files_in r ?rest)"
            by (meson last_in_set)
          from files_in_member[OF this] obtain q where
            q: "q \<in> set ?rest" "name_ok g" "q = join r [] @ g"
            by blast
          from run_all_emitted[OF q(1)] obtain c where
            c: "c \<in> set entries" "q \<in> set (emitted (fst (?W c)))"
            by auto
          from c(1) Dir.prems(1) have ok: "name_ok (entry_name c)" "names_ok c"
            by auto
          from walk_under[OF ok(2) c(2)] have "prefix (join root [] @ entry_name c @ [sep]) q"
            by (simp add: join_name_slashed[OF ok(1)])
          with q have "prefix (join root [] @ entry_name c @ [sep]) (join r [])"
            using under_child[OF ok(1) q(2), of root r] by simp
          with same have "prefix (join root [] @ entry_name c @ [sep]) (join root [])"
            by simp
          then have "length (join root [] @ entry_name c @ [sep]) \<le> length (join root [])"
            by (rule prefix_length_le)
          then show False
            by simp
        qed
        with em own same snames show ?thesis
          by (simp add: files_in_append)
      next
        case False
        with em own rest show ?thesis
          by (simp add: files_in_append)
      qed
    qed
  qed
qed

lemma relisted_entry:
  "relisted c c' \<Longrightarrow> entry_name c' = entry_name c \<and> is_link c' = is_link c
     \<and> is_dir_entry c' = is_dir_entry c"
  by (induction rule: relisted.induct) simp_all

lemma relisted_names:
  "list_all2 relisted cs cs' \<Longrightarrow> map entry_name cs' = map entry_name cs"
  by (induction rule: list_all2_induct) (simp_all add: relisted_entry)

lemma list_all2_filter_same:
  assumes "list_all2 R xs ys" and "\<And>x y. R x y \<Longrightarrow> P y = P x"
  shows "list_all2 R (filter P xs) (filter P ys)"
  using assms(1)
proof (induction rule: list_all2_induct)
  case Nil
  show ?case
    by simp
next
  case (Cons x xs y ys)
  with assms(2)[of x y] show ?case
    by simp
qed

lemma descends_dirs: "filter (descends a shown) es = filter (descends a shown) (filter is_dir_entry es)"
  by (induction es) (auto simp: descends_def)

lemma run_all_related:
  assumes "list_all2 R cs cs'"
      and "\<And>c c'. R c c' \<Longrightarrow>
             printed_and_logged (fst (f c')) = printed_and_logged (fst (g c)) \<and> snd (f c') = snd (g c)"
  shows "printed_and_logged (fst (run_all (map f cs'))) = printed_and_logged (fst (run_all (map g cs)))
     \<and> snd (run_all (map f cs')) = snd (run_all (map g cs))"
  using assms(1)
proof (induction rule: list_all2_induct)
  case Nil
  show ?case
    by simp
next
  case (Cons c cs c' cs')
  obtain ef bf where f: "f c' = (ef, bf)"
    by (cases "f c'")
  obtain eg bg where g: "g c = (eg, bg)"
    by (cases "g c")
  from assms(2)[OF Cons.hyps(1)] f g have "printed_and_logged ef = printed_and_logged eg" "bf = bg"
    by simp_all
  with Cons.IH show ?case
    by (simp add: f g printed_append)
qed

lemma printed_emit_same:
  assumes "mset files' = mset files" and "distinct (map fst files)"
  shows "emit_sorted e a exts ms root files' = emit_sorted e a exts ms root files"
proof -
  have d': "distinct (map fst files')"
    using assms by (metis mset_eq_imp_distinct_iff mset_map)
  have s: "set files' = set files"
    using assms(1) by (rule mset_eq_setD)
  have "sort_key fst files' = sort_key fst files"
  proof (rule properties_for_sort_key)
    show "mset (sort_key fst files) = mset files'"
      using assms(1) by simp
    show "sorted (map fst (sort_key fst files))"
      by simp
    fix k assume k: "k \<in> set (sort_key fst files)"
    have "filter (\<lambda>x. fst k = fst x) (sort_key fst files) = [k]"
      using k assms(2) by (intro filter_distinct_key) (simp_all add: distinct_map)
    moreover have "filter (\<lambda>x. fst k = fst x) files' = [k]"
      using k d' s by (intro filter_distinct_key) simp_all
    ultimately show "filter (\<lambda>x. fst k = fst x) (sort_key fst files)
        = filter (\<lambda>x. fst k = fst x) files'"
      by simp
  qed
  then show ?thesis
    by (simp add: emit_sorted_def)
qed

lemma walk_relisted:
  "relisted t t' \<Longrightarrow>
   printed_and_logged (fst (walk e a exts ms root t')) = printed_and_logged (fst (walk e a exts ms root t))
   \<and> snd (walk e a exts ms root t') = snd (walk e a exts ms root t)"
proof (induction arbitrary: root rule: relisted.induct)
  case (relisted_file n fd)
  show ?case
    by simp
next
  case (relisted_unlistable n)
  show ?case
    by simp
next
  case (relisted_dir es es' n lnk)
  let ?ds = "filter is_dir_entry es" and ?ds' = "filter is_dir_entry es'"
  have rel: "list_all2 relisted ?ds ?ds'"
    using relisted_dir.IH by (rule list_all2_mono) simp
  have dirs: "map entry_name ?ds' = map entry_name ?ds"
    using rel by (rule relisted_names)
  have files: "emit_sorted e a exts ms root (file_entries es')
      = emit_sorted e a exts ms root (file_entries es)"
    using relisted_dir.hyps by (intro printed_emit_same)
  have below: "printed_and_logged (fst (run_all
          (map (\<lambda>c. walk e a exts ms (join root (entry_name c)) c) (filter (descends a shown) es'))))
      = printed_and_logged (fst (run_all
          (map (\<lambda>c. walk e a exts ms (join root (entry_name c)) c) (filter (descends a shown) es))))
     \<and> snd (run_all
          (map (\<lambda>c. walk e a exts ms (join root (entry_name c)) c) (filter (descends a shown) es')))
      = snd (run_all
          (map (\<lambda>c. walk e a exts ms (join root (entry_name c)) c) (filter (descends a shown) es)))"
    for shown
  proof -
    let ?R = "\<lambda>c c'. relisted c c' \<and>
         (\<forall>root. printed_and_logged (fst (walk e a exts ms root c'))
                   = printed_and_logged (fst (walk e a exts ms root c))
               \<and> snd (walk e a exts ms root c') = snd (walk e a exts ms root c))"
    have same: "descends a shown c' = descends a shown c" if "?R c c'" for c c'
      using relisted_entry[of c c'] that by (simp add: descends_def)
    have "list_all2 ?R (filter (descends a shown) ?ds) (filter (descends a shown) ?ds')"
      using relisted_dir.IH same by (rule list_all2_filter_same)
    moreover have "printed_and_logged (fst (walk e a exts ms (join root (entry_name c')) c'))
           = printed_and_logged (fst (walk e a exts ms (join root (entry_name c)) c))
         \<and> snd (walk e a exts ms (join root (entry_name c')) c')
           = snd (walk e a exts ms (join root (entry_name c)) c)" if "?R c c'" for c c'
    proof -
      from that relisted_entry[of c c'] have "entry_name c' = entry_name c"
        by simp
      with that show ?thesis
        by simp
    qed
    ultimately have "printed_and_logged (fst (run_all
          (map (\<lambda>c. walk e a exts ms (join root (entry_name c)) c)
             (filter (descends a shown) ?ds'))))
      = printed_and_logged (fst (run_all
          (map (\<lambda>c. walk e a exts ms (join root (entry_name c)) c)
             (filter (descends a shown) ?ds))))
     \<and> snd (run_all
          (map (\<lambda>c. walk e a exts ms (join root (entry_name c)) c)
             (filter (descends a shown) ?ds')))
      = snd (run_all
          (map (\<lambda>c. walk e a exts ms (join root (entry_name c)) c)
             (filter (descends a shown) ?ds)))"
      by (rule run_all_related)
    then show ?thesis
      unfolding descends_dirs[of a shown es, symmetric] descends_dirs[of a shown es', symmetric] .
  qed
  show ?case
  proof (cases "safe_walk_dirs e (arg_dir a) (arg_exclude a) (arg_include a) ms
                  (arg_allow_ignored a) (abspath (cwd e) root) (map entry_name ?ds)")
    case (Raises x)
    then show ?thesis
      by (simp add: dirs Let_def)
  next
    case (Returns kept)
    then show ?thesis
      using below[of "filter (\<lambda>d. \<not> startswith d ''.'') kept"]
      by (simp add: dirs files Let_def printed_and_logged_def)
  qed
qed

lemma files_in_nil: "files_in r [] = []"
  by (simp add: files_in_def)

text \<open>
  C9. In a run of \<open>main\<close> on a tree in which the entries of each directory have distinct
  names without a separator, and for every directory \<open>r\<close>, the names of the files of
  \<open>r\<close> for which a block is printed come in strictly ascending order in the output. And
  the order in which directories list their files does not show: on a tree that differs
  only in that order, the run prints and logs the same.
\<close>

theorem main_emits_files_in_name_order:
  assumes "names_ok t" and "distinct_names t"
  shows "sorted_wrt (<) (files_in r (emitted (fst (main e found a t))))
       \<and> (relisted t t' \<longrightarrow>
            printed_and_logged (fst (main e found a t'))
              = printed_and_logged (fst (main e found a t)))"
proof (intro conjI impI)
  show "sorted_wrt (<) (files_in r (emitted (fst (main e found a t))))"
  proof (cases "arg_parse_pdf a \<and> \<not> pdftotext_available e")
    case True
    then show ?thesis
      by (simp add: main_def files_in_nil)
  next
    case False
    with walk_sorted[OF assms] show ?thesis
      by (auto simp: main_def Let_def)
  qed
next
  assume "relisted t t'"
  from walk_relisted[OF this] show "printed_and_logged (fst (main e found a t'))
      = printed_and_logged (fst (main e found a t))"
    by (simp add: main_def Let_def)
qed

theorem main_emits_files_in_name_order_witness:
  "names_ok shuffled_tree \<and> distinct_names shuffled_tree
   \<and> relisted shuffled_tree ordered_tree
   \<and> emitted (fst (main example_env [] (example_args ''/r'') shuffled_tree))
       = [''/r/a.txt'', ''/r/b.txt'', ''/r/sub/c.txt'', ''/r/sub/d.txt'']
   \<and> files_in ''/r/sub'' (emitted (fst (main example_env [] (example_args ''/r'') shuffled_tree)))
       = [''c.txt'', ''d.txt'']
   \<and> sorted_wrt (<)
       (files_in ''/r/sub'' (emitted (fst (main example_env [] (example_args ''/r'') shuffled_tree))))
   \<and> printed_and_logged (fst (main example_env [] (example_args ''/r'') ordered_tree))
       = printed_and_logged (fst (main example_env [] (example_args ''/r'') shuffled_tree))"
proof -
  have h1: "names_ok shuffled_tree"
    by code_simp
  have h2: "distinct_names shuffled_tree"
    by code_simp
  have sub: "relisted
      (Dir ''sub'' False [File ''d.txt'' (text_file ''d''), File ''c.txt'' (text_file ''c'')])
      (Dir ''sub'' False [File ''c.txt'' (text_file ''c''), File ''d.txt'' (text_file ''d'')])"
    by (rule relisted_dir) simp_all
  have h3: "relisted shuffled_tree ordered_tree"
    unfolding shuffled_tree_def ordered_tree_def using sub by (intro relisted_dir) simp_all
  have v: "emitted (fst (main example_env [] (example_args ''/r'') shuffled_tree))
       = [''/r/a.txt'', ''/r/b.txt'', ''/r/sub/c.txt'', ''/r/sub/d.txt'']"
    by code_simp
  have f: "files_in ''/r/sub''
       (emitted (fst (main example_env [] (example_args ''/r'') shuffled_tree)))
     = [''c.txt'', ''d.txt'']"
    by code_simp
  from main_emits_files_in_name_order[OF h1 h2, of "''/r/sub''" example_env "[]"
      "example_args ''/r''" ordered_tree] h3
  have "sorted_wrt (<)
       (files_in ''/r/sub'' (emitted (fst (main example_env [] (example_args ''/r'') shuffled_tree))))
     \<and> printed_and_logged (fst (main example_env [] (example_args ''/r'') ordered_tree))
       = printed_and_logged (fst (main example_env [] (example_args ''/r'') shuffled_tree))"
    by blast
  with h1 h2 h3 v f show ?thesis
    by blast
qed

end
